theory Spec2Isabelle
  imports Main "HOL-Library.AList" "HOL-Library.Char_ord" "HOL-Library.List_Lexorder"
    "HOL-Library.Product_Lexorder"
begin

section \<open>The crossword solver of \<^verbatim>\<open>Crossword/generate.py\<close>\<close>

text \<open>
  The development embeds the class \<^verbatim>\<open>CrosswordCreator\<close>: node consistency, \<^verbatim>\<open>revise\<close>,
  AC-3, the consistency checker, the two heuristics and the backtracking search.

  Conventions of the embedding.
  \<^item> A Python exception is a value \<open>Inl e\<close> of the result type \<open>error + 'a\<close>.
  \<^item> A Python \<^verbatim>\<open>dict\<close> is an association list in insertion order; a Python \<^verbatim>\<open>set\<close> is a
    list in its iteration order. The order in which Python iterates over a set is not
    fixed by its contents, so the order of \<open>variables\<close> and of the words of a domain is
    part of the input of the model; removing a word keeps the order of the others.
  \<^item> The methods mutate \<^verbatim>\<open>self.domains\<close>; their models take the state of the
    \<^verbatim>\<open>CrosswordCreator\<close> and return the new state next to the result.
  \<^item> The word sets of the domains are mutable objects. They live in a store
    (\<open>heap\<close>), and \<^verbatim>\<open>self.domains\<close> maps a variable to the address of its set, so that
    copying \<^verbatim>\<open>self.domains[var]\<close> copies an address, as in Python.
\<close>

subsection \<open>Data model\<close>

datatype error = KeyError | IndexError | TypeError | ValueError

datatype direction = ACROSS | DOWN

text \<open>Modelled from the spec: the class \<^verbatim>\<open>Variable\<close> of \<^verbatim>\<open>crossword.py\<close> (a slot:
  starting row, starting column, orientation, length; identity by value).\<close>

record variable =
  var_i :: nat
  var_j :: nat
  direction :: direction
  var_length :: nat

text \<open>Modelled from the spec: the class \<^verbatim>\<open>Crossword\<close> of \<^verbatim>\<open>crossword.py\<close>, as far as
  the solver reads it: the set of slots, the vocabulary, and the overlap lookup, a
  dictionary from ordered pairs of distinct slots to either \<^verbatim>\<open>None\<close> or a pair of
  character indices.\<close>

record crossword =
  variables :: "variable list"
  words :: "string list"
  overlaps :: "((variable \<times> variable) \<times> (nat \<times> nat) option) list"

text \<open>Modelled from the spec: \<^verbatim>\<open>Crossword.neighbors\<close>, the set of other slots with which
  a slot has an overlap relation.\<close>

definition neighbors :: "crossword \<Rightarrow> variable \<Rightarrow> variable list" where
  "neighbors cw var =
     filter (\<lambda>v. v \<noteq> var \<and>
                 (case map_of (overlaps cw) (v, var) of Some (Some ij) \<Rightarrow> True | _ \<Rightarrow> False))
       (variables cw)"

type_synonym ref = nat

record creator =
  domains :: "(variable \<times> ref) list"
  heap :: "string list list"

type_synonym assignment = "(variable \<times> string) list"

text \<open>Reading and writing a set object of the store. An address always designates a
  live object in Python; an address beyond the store reads as the empty set.\<close>

definition heap_get :: "string list list \<Rightarrow> ref \<Rightarrow> string list" where
  "heap_get h r = (if r < length h then h ! r else [])"

definition domain_of :: "creator \<Rightarrow> variable \<Rightarrow> error + string list" where
  "domain_of s var =
     (case map_of (domains s) var of
        None \<Rightarrow> Inl KeyError
      | Some r \<Rightarrow> Inr (heap_get (heap s) r))"

text \<open>\<^verbatim>\<open>__init__\<close>: every variable gets its own copy of the vocabulary.\<close>

definition init :: "crossword \<Rightarrow> creator" where
  "init cw =
     \<lparr> domains = zip (variables cw) [0 ..< length (variables cw)],
       heap = replicate (length (variables cw)) (words cw) \<rparr>"

subsection \<open>Node consistency\<close>

text \<open>One iteration of the loop of \<^verbatim>\<open>enforce_node_consistency\<close> builds a new set and
  binds the variable to it.\<close>

fun enforce_node_consistency_loop :: "variable list \<Rightarrow> creator \<Rightarrow> error + creator" where
  "enforce_node_consistency_loop [] s = Inr s"
| "enforce_node_consistency_loop (var # rest) s =
     (case domain_of s var of
        Inl e \<Rightarrow> Inl e
      | Inr d \<Rightarrow>
          let domain_consistent = filter (\<lambda>word. var_length var = length word) d
          in enforce_node_consistency_loop rest
               \<lparr> domains = AList.update var (length (heap s)) (domains s),
                 heap = heap s @ [domain_consistent] \<rparr>)"

definition enforce_node_consistency :: "crossword \<Rightarrow> creator \<Rightarrow> error + creator" where
  "enforce_node_consistency cw s = enforce_node_consistency_loop (variables cw) s"

subsection \<open>Arc consistency\<close>

text \<open>\<^verbatim>\<open>all(word[i] != other[j] for other in self.domains[y])\<close>: the generator stops at
  the first word that agrees, and indexing beyond a word raises.\<close>

fun all_differ :: "string \<Rightarrow> nat \<Rightarrow> nat \<Rightarrow> string list \<Rightarrow> error + bool" where
  "all_differ word i j [] = Inr True"
| "all_differ word i j (other # rest) =
     (if i < length word \<and> j < length other
      then (if word ! i \<noteq> other ! j then all_differ word i j rest else Inr False)
      else Inl IndexError)"

fun revise_loop :: "nat \<Rightarrow> nat \<Rightarrow> string list \<Rightarrow> string list \<Rightarrow> bool \<times> string list
    \<Rightarrow> error + (bool \<times> string list)" where
  "revise_loop i j dy [] acc = Inr acc"
| "revise_loop i j dy (word # rest) (change, to_remove) =
     (case all_differ word i j dy of
        Inl e \<Rightarrow> Inl e
      | Inr True \<Rightarrow> revise_loop i j dy rest (True, List.insert word to_remove)
      | Inr False \<Rightarrow> revise_loop i j dy rest (change, to_remove))"

definition revise :: "crossword \<Rightarrow> variable \<Rightarrow> variable \<Rightarrow> creator \<Rightarrow> error + (bool \<times> creator)" where
  "revise cw x y s =
     (case map_of (overlaps cw) (x, y) of
        None \<Rightarrow> Inl KeyError
      | Some None \<Rightarrow> Inr (False, s)
      | Some (Some (i, j)) \<Rightarrow>
          (case map_of (domains s) x of
             None \<Rightarrow> Inl KeyError
           | Some rx \<Rightarrow>
               (case domain_of s y of
                  Inl e \<Rightarrow> (if heap_get (heap s) rx = [] then Inr (False, s) else Inl e)
                | Inr dy \<Rightarrow>
                    (case revise_loop i j dy (heap_get (heap s) rx) (False, []) of
                       Inl e \<Rightarrow> Inl e
                     | Inr (change, to_remove) \<Rightarrow>
                         Inr (change,
                              s\<lparr> heap := (heap s)[rx := fold removeAll to_remove
                                                          (heap_get (heap s) rx)] \<rparr>)))))"

text \<open>Facts about \<open>revise\<close> that the termination of the worklist loop rests on.\<close>

definition agree :: "string \<Rightarrow> nat \<Rightarrow> string \<Rightarrow> nat \<Rightarrow> bool" where
  "agree w i v j \<longleftrightarrow> i < length w \<and> j < length v \<and> w ! i = v ! j"

definition supported :: "nat \<Rightarrow> nat \<Rightarrow> string list \<Rightarrow> string \<Rightarrow> bool" where
  "supported i j dy w \<longleftrightarrow> (\<exists>v \<in> set dy. agree w i v j)"

lemma all_differ_Inr: "all_differ w i j dy = Inr b \<Longrightarrow> b = (\<not> supported i j dy w)"
  by (induction dy) (auto simp: supported_def agree_def split: if_splits)

lemma revise_loop_Inr:
  "revise_loop i j dy dx (c, tr) = Inr (c', tr') \<Longrightarrow>
     set tr' = set tr \<union> {w \<in> set dx. \<not> supported i j dy w} \<and>
     (c' \<longleftrightarrow> c \<or> (\<exists>w \<in> set dx. \<not> supported i j dy w))"
proof (induction dx arbitrary: c tr)
  case Nil
  then show ?case by simp
next
  case (Cons w dx)
  show ?case
  proof (cases "all_differ w i j dy")
    case (Inl e)
    with Cons.prems show ?thesis by simp
  next
    case (Inr b)
    note b = all_differ_Inr [OF Inr]
    show ?thesis
    proof (cases b)
      case True
      with Inr Cons.prems have "revise_loop i j dy dx (True, List.insert w tr) = Inr (c', tr')"
        by simp
      from Cons.IH [OF this] b True show ?thesis by auto
    next
      case False
      with Inr Cons.prems have "revise_loop i j dy dx (c, tr) = Inr (c', tr')"
        by simp
      from Cons.IH [OF this] b False show ?thesis by auto
    qed
  qed
qed

lemma fold_removeAll: "fold removeAll tr xs = filter (\<lambda>w. w \<notin> set tr) xs"
proof (induction tr arbitrary: xs)
  case Nil
  show ?case by simp
next
  case (Cons a tr)
  have "removeAll a xs = filter (\<lambda>w. w \<noteq> a) xs"
    by (induction xs) auto
  with Cons show ?case by (simp add: conj_commute)
qed

lemma heap_get_update:
  "heap_get (h[r := d]) r' = (if r' = r \<and> r < length h then d else heap_get h r')"
  by (simp add: heap_get_def)

lemma heap_update_get: "h[r := heap_get h r] = h"
  by (cases "r < length h") (simp_all add: heap_get_def list_update_beyond)

definition heap_size :: "creator \<Rightarrow> nat" where
  "heap_size s = sum_list (map length (heap s))"

lemma sum_list_length_update:
  assumes "r < length h" and "length d < length (h ! r)"
  shows "sum_list (map length (h[r := d])) < sum_list (map length h)"
proof -
  have h: "h = take r h @ (h ! r) # drop (Suc r) h"
    using assms(1) by (simp add: id_take_nth_drop)
  have "h[r := d] = take r h @ d # drop (Suc r) h"
    using assms(1) by (simp add: upd_conv_take_nth_drop)
  then have "sum_list (map length (h[r := d]))
      = sum_list (map length (take r h)) + length d + sum_list (map length (drop (Suc r) h))"
    by simp
  moreover have "sum_list (map length h)
      = sum_list (map length (take r h)) + length (h ! r) + sum_list (map length (drop (Suc r) h))"
    by (subst h) simp
  ultimately show ?thesis using assms(2) by linarith
qed

text \<open>What a returning call of \<open>revise\<close> on an overlapping pair does to the state.\<close>

lemma revise_overlap_Inr:
  assumes "revise cw x y s = Inr (c, s')"
    and "map_of (overlaps cw) (x, y) = Some (Some (i, j))"
  shows "\<exists>rx. map_of (domains s) x = Some rx \<and>
     (heap_get (heap s) rx = [] \<and> \<not> c \<and> s' = s \<or>
      (\<exists>dy. domain_of s y = Inr dy \<and>
         s' = s\<lparr> heap := (heap s)[rx := filter (supported i j dy) (heap_get (heap s) rx)] \<rparr> \<and>
         (c \<longleftrightarrow> (\<exists>w \<in> set (heap_get (heap s) rx). \<not> supported i j dy w))))"
proof -
  from assms obtain rx where rx: "map_of (domains s) x = Some rx"
    by (auto simp: revise_def split: option.splits)
  show ?thesis
  proof (cases "domain_of s y")
    case (Inl e)
    with assms rx show ?thesis
      by (auto simp: revise_def split: if_splits)
  next
    case (Inr dy)
    with assms rx obtain tr where
      loop: "revise_loop i j dy (heap_get (heap s) rx) (False, []) = Inr (c, tr)" and
      s': "s' = s\<lparr> heap := (heap s)[rx := fold removeAll tr (heap_get (heap s) rx)] \<rparr>"
      by (auto simp: revise_def split: sum.splits)
    from revise_loop_Inr [OF loop]
    have tr: "set tr = {w \<in> set (heap_get (heap s) rx). \<not> supported i j dy w}"
      and c: "c \<longleftrightarrow> (\<exists>w \<in> set (heap_get (heap s) rx). \<not> supported i j dy w)"
      by auto
    have "fold removeAll tr (heap_get (heap s) rx)
        = filter (supported i j dy) (heap_get (heap s) rx)"
      unfolding fold_removeAll using tr by (auto intro: filter_cong)
    with s' c rx Inr show ?thesis by auto
  qed
qed

lemma revise_unchanged:
  assumes "revise cw x y s = Inr (False, s')"
  shows "s' = s"
proof (cases "map_of (overlaps cw) (x, y)")
  case None
  with assms show ?thesis by (simp add: revise_def)
next
  case (Some ov)
  show ?thesis
  proof (cases ov)
    case None
    with Some assms show ?thesis by (simp add: revise_def)
  next
    case (Some ij)
    obtain i j where ij: "ij = (i, j)" by (cases ij)
    from revise_overlap_Inr [OF assms] \<open>map_of (overlaps cw) (x, y) = Some ov\<close> Some ij
    obtain rx where
      "heap_get (heap s) rx = [] \<and> s' = s \<or>
       (\<exists>dy. s' = s\<lparr> heap := (heap s)[rx := filter (supported i j dy) (heap_get (heap s) rx)] \<rparr> \<and>
          (\<forall>w \<in> set (heap_get (heap s) rx). supported i j dy w))"
      by auto
    then show ?thesis
    proof
      assume "heap_get (heap s) rx = [] \<and> s' = s"
      then show ?thesis by simp
    next
      assume "\<exists>dy. s' = s\<lparr> heap := (heap s)[rx := filter (supported i j dy) (heap_get (heap s) rx)] \<rparr> \<and>
          (\<forall>w \<in> set (heap_get (heap s) rx). supported i j dy w)"
      then obtain dy where
        s': "s' = s\<lparr> heap := (heap s)[rx := filter (supported i j dy) (heap_get (heap s) rx)] \<rparr>"
        and all: "\<forall>w \<in> set (heap_get (heap s) rx). supported i j dy w"
        by blast
      from all have "filter (supported i j dy) (heap_get (heap s) rx) = heap_get (heap s) rx"
        by (simp add: filter_id_conv)
      with s' show ?thesis by (simp add: heap_update_get)
    qed
  qed
qed

lemma revise_changed_size:
  assumes "revise cw x y s = Inr (True, s')"
  shows "heap_size s' < heap_size s"
proof -
  from assms obtain i j where ov: "map_of (overlaps cw) (x, y) = Some (Some (i, j))"
    by (auto simp: revise_def split: option.splits)
  from revise_overlap_Inr [OF assms ov] obtain rx dy where
    s': "s' = s\<lparr> heap := (heap s)[rx := filter (supported i j dy) (heap_get (heap s) rx)] \<rparr>"
    and ex: "\<exists>w \<in> set (heap_get (heap s) rx). \<not> supported i j dy w"
    by auto
  from ex have r: "rx < length (heap s)"
    by (auto simp: heap_get_def split: if_splits)
  from ex have "length (filter (supported i j dy) (heap_get (heap s) rx))
      < length (heap_get (heap s) rx)"
    by (meson length_filter_less)
  with r have "length (filter (supported i j dy) (heap_get (heap s) rx)) < length (heap s ! rx)"
    by (simp add: heap_get_def)
  from sum_list_length_update [OF r this] s' show ?thesis
    by (simp add: heap_size_def)
qed

text \<open>The worklist loop of \<^verbatim>\<open>ac3\<close>: \<^verbatim>\<open>arcs.pop(0)\<close> takes the front arc, new arcs go to
  the end.\<close>

function ac3_loop :: "crossword \<Rightarrow> (variable \<times> variable) list \<Rightarrow> creator
    \<Rightarrow> error + (bool \<times> creator)" where
  "ac3_loop cw [] s = Inr (True, s)"
| "ac3_loop cw ((x, y) # arcs) s =
     (case revise cw x y s of
        Inl e \<Rightarrow> Inl e
      | Inr (True, s') \<Rightarrow>
          (case domain_of s' x of
             Inl e \<Rightarrow> Inl e
           | Inr d \<Rightarrow>
               if length d = 0 then Inr (False, s')
               else ac3_loop cw (arcs @ map (\<lambda>neighbor. (neighbor, x))
                                          (removeAll y (neighbors cw x))) s')
      | Inr (False, s') \<Rightarrow> ac3_loop cw arcs s')"
  by pat_completeness auto
termination
proof (relation "measures [\<lambda>(cw, arcs, s). heap_size s, \<lambda>(cw, arcs, s). length arcs]")
  show "wf (measures [\<lambda>(cw, arcs, s). heap_size s, \<lambda>(cw, arcs, s). length arcs])"
    by simp
next
  fix cw x y arcs s r b s'
  assume "revise cw x y s = Inr r" and "(b, s') = r" and "b = True"
  then have "revise cw x y s = Inr (True, s')" by auto
  from revise_changed_size [OF this]
  show "((cw, arcs @ map (\<lambda>neighbor. (neighbor, x)) (removeAll y (neighbors cw x)), s'),
          cw, (x, y) # arcs, s)
        \<in> measures [\<lambda>(cw, arcs, s). heap_size s, \<lambda>(cw, arcs, s). length arcs]"
    by simp
next
  fix cw x y arcs s r b s'
  assume "revise cw x y s = Inr r" and "(b, s') = r" and "b = False"
  then have "revise cw x y s = Inr (False, s')" by auto
  from revise_unchanged [OF this]
  show "((cw, arcs, s'), cw, (x, y) # arcs, s)
        \<in> measures [\<lambda>(cw, arcs, s). heap_size s, \<lambda>(cw, arcs, s). length arcs]"
    by simp
qed

definition all_arcs :: "crossword \<Rightarrow> (variable \<times> variable) list" where
  "all_arcs cw =
     filter (\<lambda>key. map_of (overlaps cw) key \<noteq> Some None) (map fst (overlaps cw))"

definition ac3 :: "crossword \<Rightarrow> (variable \<times> variable) list option \<Rightarrow> creator
    \<Rightarrow> error + (bool \<times> creator)" where
  "ac3 cw arcs s =
     (case arcs of
        None \<Rightarrow> ac3_loop cw (all_arcs cw) s
      | Some arcs \<Rightarrow> ac3_loop cw arcs s)"

subsection \<open>The consistency checker\<close>

definition assignment_complete :: "crossword \<Rightarrow> assignment \<Rightarrow> bool" where
  "assignment_complete cw a = list_all (\<lambda>var. var \<in> set (map fst a)) (variables cw)"

text \<open>The inner loop of \<^verbatim>\<open>consistent\<close> over the neighbours of one assigned variable;
  \<open>Inr False\<close> is the early \<^verbatim>\<open>return False\<close>.\<close>

fun check_neighbors :: "crossword \<Rightarrow> assignment \<Rightarrow> variable \<Rightarrow> string \<Rightarrow> variable list
    \<Rightarrow> error + bool" where
  "check_neighbors cw a var word [] = Inr True"
| "check_neighbors cw a var word (neighbor # rest) =
     (case map_of a neighbor of
        None \<Rightarrow> check_neighbors cw a var word rest
      | Some neighbor_word \<Rightarrow>
          (case map_of (overlaps cw) (var, neighbor) of
             None \<Rightarrow> Inl KeyError
           | Some None \<Rightarrow> Inl TypeError
           | Some (Some (i, j)) \<Rightarrow>
               if i < length word \<and> j < length neighbor_word
               then (if word ! i \<noteq> neighbor_word ! j then Inr False
                     else check_neighbors cw a var word rest)
               else Inl IndexError))"

fun consistent_loop :: "crossword \<Rightarrow> assignment \<Rightarrow> (variable \<times> string) list \<Rightarrow> error + bool" where
  "consistent_loop cw a [] = Inr True"
| "consistent_loop cw a ((var, word) # rest) =
     (if var_length var \<noteq> length word then Inr False
      else (case check_neighbors cw a var word (neighbors cw var) of
              Inl e \<Rightarrow> Inl e
            | Inr False \<Rightarrow> Inr False
            | Inr True \<Rightarrow> consistent_loop cw a rest))"

definition consistent :: "crossword \<Rightarrow> assignment \<Rightarrow> error + bool" where
  "consistent cw a =
     (case consistent_loop cw a a of
        Inl e \<Rightarrow> Inl e
      | Inr False \<Rightarrow> Inr False
      | Inr True \<Rightarrow>
          if length (map snd a) \<noteq> length (remdups (map snd a)) then Inr False
          else Inr True)"

subsection \<open>The heuristics\<close>

fun count_differ :: "string \<Rightarrow> (nat \<times> nat) option \<Rightarrow> string list \<Rightarrow> nat \<Rightarrow> error + nat" where
  "count_differ val overlap [] n = Inr n"
| "count_differ val overlap (neighbor_value # rest) n =
     (case overlap of
        None \<Rightarrow> Inl TypeError
      | Some (i, j) \<Rightarrow>
          if i < length val \<and> j < length neighbor_value
          then count_differ val overlap rest
                 (if val ! i \<noteq> neighbor_value ! j then n + 1 else n)
          else Inl IndexError)"

fun count_neighbors :: "crossword \<Rightarrow> creator \<Rightarrow> assignment \<Rightarrow> variable \<Rightarrow> string
    \<Rightarrow> variable list \<Rightarrow> nat \<Rightarrow> error + nat" where
  "count_neighbors cw s a var val [] n = Inr n"
| "count_neighbors cw s a var val (neighbor # rest) n =
     (if neighbor \<in> set (map fst a) then count_neighbors cw s a var val rest n
      else (case map_of (overlaps cw) (var, neighbor) of
              None \<Rightarrow> Inl KeyError
            | Some overlap \<Rightarrow>
                (case domain_of s neighbor of
                   Inl e \<Rightarrow> Inl e
                 | Inr dn \<Rightarrow>
                     (case count_differ val overlap dn n of
                        Inl e \<Rightarrow> Inl e
                      | Inr n' \<Rightarrow> count_neighbors cw s a var val rest n'))))"

fun order_loop :: "crossword \<Rightarrow> creator \<Rightarrow> assignment \<Rightarrow> variable \<Rightarrow> string list
    \<Rightarrow> nat list \<times> string list \<Rightarrow> error + (nat list \<times> string list)" where
  "order_loop cw s a var [] acc = Inr acc"
| "order_loop cw s a var (val # rest) (domain_values, domain_list) =
     (case count_neighbors cw s a var val (neighbors cw var) 0 of
        Inl e \<Rightarrow> Inl e
      | Inr n \<Rightarrow> order_loop cw s a var rest (domain_values @ [n], domain_list @ [val]))"

definition order_domain_values :: "crossword \<Rightarrow> creator \<Rightarrow> variable \<Rightarrow> assignment
    \<Rightarrow> error + string list" where
  "order_domain_values cw s var a =
     (case domain_of s var of
        Inl e \<Rightarrow> Inl e
      | Inr d \<Rightarrow>
          (case order_loop cw s a var d ([], []) of
             Inl e \<Rightarrow> Inl e
           | Inr (domain_values, domain_list) \<Rightarrow>
               Inr (map snd (sort (zip domain_values domain_list)))))"

text \<open>Python's \<^verbatim>\<open>min\<close>, \<^verbatim>\<open>max\<close>, \<^verbatim>\<open>list.index\<close> and indexing, with their exceptions.\<close>

fun py_min :: "nat list \<Rightarrow> error + nat" where
  "py_min [] = Inl ValueError"
| "py_min (x # xs) = Inr (fold min xs x)"

fun py_max :: "nat list \<Rightarrow> error + nat" where
  "py_max [] = Inl ValueError"
| "py_max (x # xs) = Inr (fold max xs x)"

fun index_of :: "'a list \<Rightarrow> 'a \<Rightarrow> error + nat" where
  "index_of [] v = Inl ValueError"
| "index_of (x # xs) v =
     (if x = v then Inr 0
      else (case index_of xs v of Inl e \<Rightarrow> Inl e | Inr n \<Rightarrow> Inr (Suc n)))"

definition list_get :: "'a list \<Rightarrow> nat \<Rightarrow> error + 'a" where
  "list_get xs n = (if n < length xs then Inr (xs ! n) else Inl IndexError)"

fun collect_unassigned :: "crossword \<Rightarrow> creator \<Rightarrow> assignment \<Rightarrow> variable list
    \<Rightarrow> nat list \<times> nat list \<times> variable list \<Rightarrow> error + (nat list \<times> nat list \<times> variable list)" where
  "collect_unassigned cw s a [] acc = Inr acc"
| "collect_unassigned cw s a (var # rest) (MRV, degree, vars) =
     (if var \<notin> set (map fst a)
      then (case domain_of s var of
              Inl e \<Rightarrow> Inl e
            | Inr d \<Rightarrow>
                collect_unassigned cw s a rest
                  (MRV @ [length d], degree @ [length (neighbors cw var)], vars @ [var]))
      else collect_unassigned cw s a rest (MRV, degree, vars))"

definition select_unassigned_variable :: "crossword \<Rightarrow> creator \<Rightarrow> assignment \<Rightarrow> error + variable" where
  "select_unassigned_variable cw s a =
     (case collect_unassigned cw s a (variables cw) ([], [], []) of
        Inl e \<Rightarrow> Inl e
      | Inr (MRV, degree, vars) \<Rightarrow>
          (case py_min MRV of
             Inl e \<Rightarrow> Inl e
           | Inr min_val \<Rightarrow>
               if count_list MRV min_val > 1
               then (let degree_index = filter (\<lambda>i. MRV ! i = min_val) [0 ..< length MRV];
                         min_degree = map (\<lambda>i. degree ! i) degree_index
                     in (case py_max min_degree of
                           Inl e \<Rightarrow> Inl e
                         | Inr m \<Rightarrow>
                             (case index_of degree m of
                                Inl e \<Rightarrow> Inl e
                              | Inr idx \<Rightarrow> list_get vars idx)))
               else (case index_of MRV min_val of
                       Inl e \<Rightarrow> Inl e
                     | Inr idx \<Rightarrow> list_get vars idx)))"

lemma collect_unassigned_vars:
  "collect_unassigned cw s a vs (MRV, degree, vars) = Inr (MRV', degree', vars') \<Longrightarrow>
     set vars' \<subseteq> set vars \<union> {v \<in> set vs. v \<notin> fst ` set a}"
proof (induction vs arbitrary: MRV degree vars)
  case Nil
  then show ?case by simp
next
  case (Cons v vs)
  show ?case
  proof (cases "v \<in> set (map fst a)")
    case True
    with Cons.prems have "collect_unassigned cw s a vs (MRV, degree, vars) = Inr (MRV', degree', vars')"
      by simp
    from Cons.IH [OF this] show ?thesis by auto
  next
    case False
    with Cons.prems obtain n where
      "collect_unassigned cw s a vs
         (MRV @ [n], degree @ [length (neighbors cw v)], vars @ [v])
       = Inr (MRV', degree', vars')"
      by (auto split: sum.splits)
    from Cons.IH [OF this] False show ?thesis by auto
  qed
qed

lemma select_unassigned_variable_unassigned:
  assumes "select_unassigned_variable cw s a = Inr var"
  shows "var \<in> set (variables cw) \<and> var \<notin> fst ` set a"
proof -
  from assms obtain MRV degree vars idx where
    c: "collect_unassigned cw s a (variables cw) ([], [], []) = Inr (MRV, degree, vars)"
    and g: "list_get vars idx = Inr var"
    by (auto simp: select_unassigned_variable_def Let_def split: sum.splits if_splits)
  from g have "var \<in> set vars"
    by (auto simp: list_get_def split: if_splits)
  with collect_unassigned_vars [OF c] show ?thesis by auto
qed

subsection \<open>Backtracking search\<close>

text \<open>\<^verbatim>\<open>domain_old[var2] = self.domains[var2]\<close> stores the set object itself, that is, its
  address; \<^verbatim>\<open>self.domains[var2] = domain_old[var2]\<close> binds the variable to that object
  again.\<close>

fun snapshot_loop :: "creator \<Rightarrow> variable list \<Rightarrow> (variable \<times> ref) list
    \<Rightarrow> error + (variable \<times> ref) list" where
  "snapshot_loop s [] domain_old = Inr domain_old"
| "snapshot_loop s (var2 # rest) domain_old =
     (case map_of (domains s) var2 of
        None \<Rightarrow> Inl KeyError
      | Some r \<Rightarrow> snapshot_loop s rest (AList.update var2 r domain_old))"

fun restore_loop :: "variable list \<Rightarrow> (variable \<times> ref) list \<Rightarrow> creator \<Rightarrow> error + creator" where
  "restore_loop [] domain_old s = Inr s"
| "restore_loop (var2 # rest) domain_old s =
     (case map_of domain_old var2 of
        None \<Rightarrow> Inl KeyError
      | Some r \<Rightarrow> restore_loop rest domain_old (s\<lparr> domains := AList.update var2 r (domains s) \<rparr>))"

text \<open>\<^verbatim>\<open>if res:\<close> holds for a dictionary that is not empty, and fails for \<^verbatim>\<open>None\<close>.\<close>

definition truthy :: "assignment option \<Rightarrow> bool" where
  "truthy res = (case res of None \<Rightarrow> False | Some r \<Rightarrow> r \<noteq> [])"

function backtrack :: "crossword \<Rightarrow> creator \<Rightarrow> assignment \<Rightarrow> error + (assignment option \<times> creator)"
  and backtrack_values :: "crossword \<Rightarrow> creator \<Rightarrow> assignment \<Rightarrow> variable \<Rightarrow> string list
    \<Rightarrow> error + (assignment option \<times> creator)" where
  "backtrack cw s a =
     (if assignment_complete cw a then Inr (Some a, s)
      else (case select_unassigned_variable cw s a of
              Inl e \<Rightarrow> Inl e
            | Inr var \<Rightarrow>
                (case order_domain_values cw s var a of
                   Inl e \<Rightarrow> Inl e
                 | Inr vals \<Rightarrow> backtrack_values cw s a var vals)))"
| "backtrack_values cw s a var [] = Inr (None, s)"
| "backtrack_values cw s a var (val # rest) =
     (let assignment_new = AList.update var val a in
      (case consistent cw assignment_new of
         Inl e \<Rightarrow> Inl e
       | Inr False \<Rightarrow> backtrack_values cw s a var rest
       | Inr True \<Rightarrow>
           (case snapshot_loop s (variables cw) [] of
              Inl e \<Rightarrow> Inl e
            | Inr domain_old \<Rightarrow>
                (case ac3 cw (Some (map (\<lambda>neighbor. (neighbor, var)) (neighbors cw var))) s of
                   Inl e \<Rightarrow> Inl e
                 | Inr (False, s1) \<Rightarrow> backtrack_values cw s1 a var rest
                 | Inr (True, s1) \<Rightarrow>
                     (case backtrack cw s1 assignment_new of
                        Inl e \<Rightarrow> Inl e
                      | Inr (res, s2) \<Rightarrow>
                          if truthy res then Inr (res, s2)
                          else (case restore_loop (variables cw) domain_old s2 of
                                  Inl e \<Rightarrow> Inl e
                                | Inr s3 \<Rightarrow> backtrack_values cw s3 a var rest))))))"
  by pat_completeness auto

lemma card_unassigned_less:
  assumes "var \<in> set (variables cw)" and "var \<notin> fst ` set a"
  shows "card (set (variables cw) - fst ` set a - {var}) < card (set (variables cw) - fst ` set a)"
proof -
  from assms have "var \<in> set (variables cw) - fst ` set a" by simp
  moreover have "finite (set (variables cw) - fst ` set a)" by simp
  ultimately show ?thesis by (meson card_Diff1_less)
qed

lemma unassigned_update:
  "set (variables cw) - fst ` set (AList.update var val a)
     = set (variables cw) - fst ` set a - {var}"
  by (auto simp: dom_update)

termination backtrack
proof (relation "measures
    [\<lambda>p. case p of
        Inl (cw, s, a) \<Rightarrow> 2 * card (set (variables cw) - fst ` set a)
      | Inr (cw, s, a, var, vals) \<Rightarrow> 2 * card (set (variables cw) - fst ` set a - {var}) + 1,
     \<lambda>p. case p of Inl (cw, s, a) \<Rightarrow> 0 | Inr (cw, s, a, var, vals) \<Rightarrow> length vals]",
    goal_cases)
  case 1
  show ?case by simp
next
  case (2 cw s a var vals)
  from select_unassigned_variable_unassigned [OF 2(2)]
  have "var \<in> set (variables cw)" and "var \<notin> fst ` set a"
    by simp_all
  from card_unassigned_less [OF this] show ?case by simp
next
  case 3
  then show ?case by (simp add: unassigned_update)
next
  case 4
  then show ?case by simp
next
  case 5
  then show ?case by simp
next
  case 6
  then show ?case by simp
qed

definition solve :: "crossword \<Rightarrow> creator \<Rightarrow> error + (assignment option \<times> creator)" where
  "solve cw s =
     (case enforce_node_consistency cw s of
        Inl e \<Rightarrow> Inl e
      | Inr s1 \<Rightarrow>
          (case ac3 cw None s1 of
             Inl e \<Rightarrow> Inl e
           | Inr (inferences, s2) \<Rightarrow> backtrack cw s2 []))"

section \<open>Properties of the embedding\<close>

subsection \<open>What the search returns\<close>

text \<open>An assignment that the search returns is complete, and it is either the argument
  of the call or an assignment that the checker accepted; its keys stay distinct.\<close>

declare backtrack.simps [simp del]

lemma backtrack_result_valid:
  "(\<forall>A s'. backtrack cw s a = Inr (Some A, s') \<longrightarrow>
       assignment_complete cw A \<and> (A = a \<or> consistent cw A = Inr True) \<and>
       (distinct (map fst a) \<longrightarrow> distinct (map fst A)))"
  "(\<forall>A s'. backtrack_values cw s a var vals = Inr (Some A, s') \<longrightarrow>
       assignment_complete cw A \<and> consistent cw A = Inr True \<and>
       (distinct (map fst a) \<longrightarrow> distinct (map fst A)))"
proof (induction cw s a and cw s a var vals rule: backtrack_backtrack_values.induct)
  case (1 cw s a)
  show ?case
  proof (intro allI impI)
    fix A s'
    assume r: "backtrack cw s a = Inr (Some A, s')"
    show "assignment_complete cw A \<and> (A = a \<or> consistent cw A = Inr True) \<and>
       (distinct (map fst a) \<longrightarrow> distinct (map fst A))"
    proof (cases "assignment_complete cw a")
      case True
      with r show ?thesis by (simp add: backtrack.simps)
    next
      case False
      with r obtain var vals where
        sel: "select_unassigned_variable cw s a = Inr var" and
        ord: "order_domain_values cw s var a = Inr vals" and
        bv: "backtrack_values cw s a var vals = Inr (Some A, s')"
        by (auto simp: backtrack.simps split: sum.splits)
      from "1.IH" [OF False sel ord] bv show ?thesis by blast
    qed
  qed
next
  case (2 cw s a var)
  show ?case by simp
next
  case (3 cw s a var val rest)
  let ?new = "AList.update var val a"
  show ?case
  proof (intro allI impI)
    fix A s'
    assume r: "backtrack_values cw s a var (val # rest) = Inr (Some A, s')"
    show "assignment_complete cw A \<and> consistent cw A = Inr True \<and>
       (distinct (map fst a) \<longrightarrow> distinct (map fst A))"
    proof (cases "consistent cw ?new")
      case (Inl e)
      with r show ?thesis by simp
    next
      case (Inr b)
      show ?thesis
      proof (cases b)
        case False
        then have bF: "b = False" by simp
        note cons = Inr [unfolded bF]
        with r have "backtrack_values cw s a var rest = Inr (Some A, s')"
          by simp
        with "3.IH"(4) [OF refl cons refl] show ?thesis by blast
      next
        case True
        then have bT: "b = True" by simp
        note cons = Inr [unfolded bT]
        show ?thesis
        proof (cases "snapshot_loop s (variables cw) []")
          case (Inl e)
          with r cons show ?thesis by simp
        next
          case snap: (Inr domain_old)
          show ?thesis
          proof (cases "ac3 cw (Some (map (\<lambda>neighbor. (neighbor, var)) (neighbors cw var))) s")
            case (Inl e)
            with r cons snap show ?thesis by simp
          next
            case ac: (Inr p)
            obtain inferences s1 where p: "p = (inferences, s1)" by (cases p)
            show ?thesis
            proof (cases inferences)
              case False
              then have iF: "inferences = False" by simp
              with r cons snap ac p
              have "backtrack_values cw s1 a var rest = Inr (Some A, s')"
                by simp
              with "3.IH"(3) [OF refl cons refl snap ac p [symmetric] iF]
              show ?thesis by blast
            next
              case True
              then have inf: "inferences = True" by simp
              show ?thesis
              proof (cases "backtrack cw s1 ?new")
                case (Inl e)
                with r cons snap ac p inf show ?thesis by simp
              next
                case bt: (Inr q)
                obtain res s2 where q: "q = (res, s2)" by (cases q)
                show ?thesis
                proof (cases "truthy res")
                  case True
                  with r cons snap ac p inf bt q have "res = Some A" and "s2 = s'"
                    by simp_all
                  with bt q have "backtrack cw s1 ?new = Inr (Some A, s')" by simp
                  with "3.IH"(1) [OF refl cons refl snap ac p [symmetric] inf] cons
                  show ?thesis by (auto simp: distinct_update)
                next
                  case nt: False
                  show ?thesis
                  proof (cases "restore_loop (variables cw) domain_old s2")
                    case (Inl e)
                    with r cons snap ac p inf bt q nt show ?thesis by simp
                  next
                    case rs: (Inr s3)
                    with r cons snap ac p inf bt q nt
                    have "backtrack_values cw s3 a var rest = Inr (Some A, s')"
                      by simp
                    with "3.IH"(2) [OF refl cons refl snap ac p [symmetric] inf bt
                        q [symmetric] nt rs]
                    show ?thesis by blast
                  qed
                qed
              qed
            qed
          qed
        qed
      qed
    qed
  qed
qed

subsection \<open>Well-formed puzzles and states\<close>

text \<open>The domain of a slot as a list, empty for a slot without a domain. A state is
  well-formed for a puzzle when every slot has a domain and the slots own distinct, live
  set objects, as after \<^verbatim>\<open>__init__\<close>. A puzzle is well-formed when its overlap lookup is
  what the geometry of a grid gives: the keys are pairs of distinct slots of the puzzle,
  the entry of \<open>(y, x)\<close> mirrors the entry of \<open>(x, y)\<close>, and the indices lie inside the
  slots.\<close>

definition dom_list :: "creator \<Rightarrow> variable \<Rightarrow> string list" where
  "dom_list s v = (case domain_of s v of Inl e \<Rightarrow> [] | Inr d \<Rightarrow> d)"

definition wf_state :: "crossword \<Rightarrow> creator \<Rightarrow> bool" where
  "wf_state cw s \<longleftrightarrow>
     list_all (\<lambda>v. map_of (domains s) v \<noteq> None) (variables cw) \<and>
     distinct (map snd (domains s)) \<and>
     list_all (\<lambda>r. r < length (heap s)) (map snd (domains s))"

definition wf_crossword :: "crossword \<Rightarrow> bool" where
  "wf_crossword cw \<longleftrightarrow>
     list_all (\<lambda>(x, y). x \<in> set (variables cw) \<and> y \<in> set (variables cw) \<and> x \<noteq> y \<and>
        (case map_of (overlaps cw) (x, y) of
           Some (Some (i, j)) \<Rightarrow>
             map_of (overlaps cw) (y, x) = Some (Some (j, i)) \<and>
             i < var_length x \<and> j < var_length y
         | _ \<Rightarrow> True))
       (map fst (overlaps cw))"

lemma dom_list_Inr: "domain_of s v = Inr d \<Longrightarrow> dom_list s v = d"
  by (simp add: dom_list_def)

lemma dom_list_ref: "map_of (domains s) v = Some r \<Longrightarrow> dom_list s v = heap_get (heap s) r"
  by (simp add: dom_list_def domain_of_def)

lemma dom_list_None: "map_of (domains s) v = None \<Longrightarrow> dom_list s v = []"
  by (simp add: dom_list_def domain_of_def)

lemma domain_of_dom_list:
  "map_of (domains s) v \<noteq> None \<Longrightarrow> domain_of s v = Inr (dom_list s v)"
  by (auto simp: dom_list_def domain_of_def)

lemma map_of_distinct_snd:
  assumes "distinct (map snd d)" and "map_of d x = Some r" and "map_of d y = Some r"
  shows "x = y"
proof -
  from assms(2,3) have "(x, r) \<in> set d" and "(y, r) \<in> set d"
    by (auto dest: map_of_SomeD)
  from assms(1) have "inj_on snd (set d)"
    by (simp add: distinct_map)
  from inj_onD [OF this _ \<open>(x, r) \<in> set d\<close> \<open>(y, r) \<in> set d\<close>]
  show ?thesis by simp
qed

lemma wf_crossword_overlap:
  assumes "wf_crossword cw" and "map_of (overlaps cw) (x, y) = Some (Some (i, j))"
  shows "x \<in> set (variables cw)" and "y \<in> set (variables cw)" and "x \<noteq> y"
    and "map_of (overlaps cw) (y, x) = Some (Some (j, i))"
    and "i < var_length x" and "j < var_length y"
proof -
  from assms(2) have "(x, y) \<in> set (map fst (overlaps cw))"
    by (metis map_of_eq_None_iff option.distinct(1) set_map)
  with assms(1) have "x \<in> set (variables cw) \<and> y \<in> set (variables cw) \<and> x \<noteq> y \<and>
        (case map_of (overlaps cw) (x, y) of
           Some (Some (i, j)) \<Rightarrow>
             map_of (overlaps cw) (y, x) = Some (Some (j, i)) \<and>
             i < var_length x \<and> j < var_length y
         | _ \<Rightarrow> True)"
    unfolding wf_crossword_def list_all_iff by fast
  with assms(2) show "x \<in> set (variables cw)" and "y \<in> set (variables cw)" and "x \<noteq> y"
    and "map_of (overlaps cw) (y, x) = Some (Some (j, i))"
    and "i < var_length x" and "j < var_length y"
    by simp_all
qed

lemma revise_no_overlap:
  assumes "revise cw x y s = Inr (c, s')"
    and "\<And>i j. map_of (overlaps cw) (x, y) \<noteq> Some (Some (i, j))"
  shows "\<not> c \<and> s' = s"
  using assms by (auto simp: revise_def split: option.splits)

lemma revise_domains:
  assumes "revise cw x y s = Inr (c, s')"
  shows "domains s' = domains s" and "length (heap s') = length (heap s)"
    and "set (heap_get (heap s') r) \<subseteq> set (heap_get (heap s) r)"
proof -
  have "domains s' = domains s \<and> length (heap s') = length (heap s) \<and>
      set (heap_get (heap s') r) \<subseteq> set (heap_get (heap s) r)"
  proof (cases "\<exists>i j. map_of (overlaps cw) (x, y) = Some (Some (i, j))")
    case False
    with revise_no_overlap [OF assms] show ?thesis by auto
  next
    case True
    then obtain i j where "map_of (overlaps cw) (x, y) = Some (Some (i, j))" by blast
    from revise_overlap_Inr [OF assms this] show ?thesis
      by (auto simp: heap_get_update split: if_splits)
  qed
  then show "domains s' = domains s" and "length (heap s') = length (heap s)"
    and "set (heap_get (heap s') r) \<subseteq> set (heap_get (heap s) r)"
    by simp_all
qed

lemma revise_overlap_dom:
  assumes r: "revise cw x y s = Inr (c, s')"
    and ov: "map_of (overlaps cw) (x, y) = Some (Some (i, j))"
  shows "map_of (domains s) x \<noteq> None"
    and "dom_list s' x = filter (supported i j (dom_list s y)) (dom_list s x)"
    and "c \<longleftrightarrow> (\<exists>w \<in> set (dom_list s x). \<not> supported i j (dom_list s y) w)"
    and "dom_list s x \<noteq> [] \<Longrightarrow> map_of (domains s) y \<noteq> None"
    and "distinct (map snd (domains s)) \<Longrightarrow> v \<noteq> x \<Longrightarrow> dom_list s' v = dom_list s v"
proof -
  from revise_overlap_Inr [OF r ov] obtain rx where
    rx: "map_of (domains s) x = Some rx" and
    d: "heap_get (heap s) rx = [] \<and> \<not> c \<and> s' = s \<or>
      (\<exists>dy. domain_of s y = Inr dy \<and>
         s' = s\<lparr> heap := (heap s)[rx := filter (supported i j dy) (heap_get (heap s) rx)] \<rparr> \<and>
         (c \<longleftrightarrow> (\<exists>w \<in> set (heap_get (heap s) rx). \<not> supported i j dy w)))"
    by blast
  from rx show "map_of (domains s) x \<noteq> None" by simp
  note dx = dom_list_ref [OF rx]
  from d show "dom_list s' x = filter (supported i j (dom_list s y)) (dom_list s x)"
  proof
    assume "heap_get (heap s) rx = [] \<and> \<not> c \<and> s' = s"
    with dx show ?thesis by simp
  next
    assume "\<exists>dy. domain_of s y = Inr dy \<and>
         s' = s\<lparr> heap := (heap s)[rx := filter (supported i j dy) (heap_get (heap s) rx)] \<rparr> \<and>
         (c \<longleftrightarrow> (\<exists>w \<in> set (heap_get (heap s) rx). \<not> supported i j dy w))"
    then obtain dy where dy: "domain_of s y = Inr dy" and
      s': "s' = s\<lparr> heap := (heap s)[rx := filter (supported i j dy) (heap_get (heap s) rx)] \<rparr>"
      by blast
    from s' rx have "dom_list s' x
        = heap_get ((heap s)[rx := filter (supported i j dy) (heap_get (heap s) rx)]) rx"
      by (simp add: dom_list_def domain_of_def)
    also have "\<dots> = filter (supported i j dy) (heap_get (heap s) rx)"
      by (cases "rx < length (heap s)") (simp_all add: heap_get_def)
    finally show ?thesis using dx dom_list_Inr [OF dy] by simp
  qed
  from d show "c \<longleftrightarrow> (\<exists>w \<in> set (dom_list s x). \<not> supported i j (dom_list s y) w)"
    using dx by (auto simp: dom_list_Inr)
  from d show "dom_list s x \<noteq> [] \<Longrightarrow> map_of (domains s) y \<noteq> None"
    using dx by (auto simp: domain_of_def split: option.splits)
  show "dom_list s' v = dom_list s v" if dist: "distinct (map snd (domains s))" and v: "v \<noteq> x"
  proof (cases "map_of (domains s) v")
    case None
    with revise_domains(1) [OF r] show ?thesis by (simp add: dom_list_None)
  next
    case (Some rv)
    with rx v dist have ne: "rv \<noteq> rx"
      using map_of_distinct_snd by fastforce
    from d show ?thesis
    proof
      assume "heap_get (heap s) rx = [] \<and> \<not> c \<and> s' = s"
      then show ?thesis by simp
    next
      assume "\<exists>dy. domain_of s y = Inr dy \<and>
         s' = s\<lparr> heap := (heap s)[rx := filter (supported i j dy) (heap_get (heap s) rx)] \<rparr> \<and>
         (c \<longleftrightarrow> (\<exists>w \<in> set (heap_get (heap s) rx). \<not> supported i j dy w))"
      then obtain dy where
        s': "s' = s\<lparr> heap := (heap s)[rx := filter (supported i j dy) (heap_get (heap s) rx)] \<rparr>"
        by blast
      with Some ne show ?thesis
        by (simp add: dom_list_def domain_of_def heap_get_update)
    qed
  qed
qed

subsection \<open>Domains only shrink\<close>

definition node_consistent :: "crossword \<Rightarrow> creator \<Rightarrow> bool" where
  "node_consistent cw s \<longleftrightarrow>
     list_all (\<lambda>v. list_all (\<lambda>w. length w = var_length v) (dom_list s v)) (variables cw)"

definition shrinks :: "creator \<Rightarrow> creator \<Rightarrow> bool" where
  "shrinks s s' \<longleftrightarrow>
     domains s' = domains s \<and> length (heap s') = length (heap s) \<and>
     (\<forall>r. set (heap_get (heap s') r) \<subseteq> set (heap_get (heap s) r))"

lemma shrinks_refl: "shrinks s s"
  by (simp add: shrinks_def)

lemma shrinks_trans: "shrinks s s' \<Longrightarrow> shrinks s' s'' \<Longrightarrow> shrinks s s''"
  unfolding shrinks_def by (metis subset_trans)

lemma shrinks_dom_list: "shrinks s s' \<Longrightarrow> set (dom_list s' v) \<subseteq> set (dom_list s v)"
  by (cases "map_of (domains s) v") (auto simp: shrinks_def dom_list_None dom_list_ref)

lemma shrinks_wf_state: "shrinks s s' \<Longrightarrow> wf_state cw s \<Longrightarrow> wf_state cw s'"
  by (simp add: shrinks_def wf_state_def)

lemma shrinks_node_consistent:
  "shrinks s s' \<Longrightarrow> node_consistent cw s \<Longrightarrow> node_consistent cw s'"
  unfolding node_consistent_def list_all_iff using shrinks_dom_list by blast

lemma revise_shrinks: "revise cw x y s = Inr (c, s') \<Longrightarrow> shrinks s s'"
  unfolding shrinks_def using revise_domains by blast

lemma ac3_loop_shrinks: "ac3_loop cw arcs s = Inr (b, s') \<Longrightarrow> shrinks s s'"
proof (induction cw arcs s rule: ac3_loop.induct)
  case (1 cw s)
  then show ?case by (simp add: shrinks_refl)
next
  case (2 cw x y arcs s)
  show ?case
  proof (cases "revise cw x y s")
    case (Inl e)
    with "2.prems" show ?thesis by simp
  next
    case (Inr p)
    obtain c s1 where p: "p = (c, s1)" by (cases p)
    note r = Inr [unfolded p]
    note sh = revise_shrinks [OF r]
    show ?thesis
    proof (cases c)
      case False
      then have c: "c = False" by simp
      from "2.prems" r c have "ac3_loop cw arcs s1 = Inr (b, s')" by simp
      from "2.IH"(2) [OF r [unfolded c] refl refl this] sh show ?thesis
        by (rule_tac shrinks_trans)
    next
      case True
      then have c: "c = True" by simp
      show ?thesis
      proof (cases "domain_of s1 x")
        case (Inl e)
        with "2.prems" r c show ?thesis by simp
      next
        case d: (Inr d)
        show ?thesis
        proof (cases "length d = 0")
          case True
          with "2.prems" r c d have "s' = s1" by simp
          with sh show ?thesis by simp
        next
          case False
          with "2.prems" r c d
          have "ac3_loop cw (arcs @ map (\<lambda>neighbor. (neighbor, x)) (removeAll y (neighbors cw x))) s1
              = Inr (b, s')"
            by simp
          from "2.IH"(1) [OF r [unfolded c] refl refl d False this] sh show ?thesis
            by (rule_tac shrinks_trans)
        qed
      qed
    qed
  qed
qed

lemma ac3_shrinks: "ac3 cw arcs s = Inr (b, s') \<Longrightarrow> shrinks s s'"
  by (cases arcs) (auto simp: ac3_def dest: ac3_loop_shrinks)

subsection \<open>The node-consistency filter\<close>

lemma update_snd_subset: "set (map snd (AList.update k v al)) \<subseteq> insert v (set (map snd al))"
  by (induction al) auto

lemma update_snd_distinct:
  "distinct (map snd al) \<Longrightarrow> v \<notin> set (map snd al) \<Longrightarrow> distinct (map snd (AList.update k v al))"
proof (induction al)
  case Nil
  then show ?case by simp
next
  case (Cons p al)
  obtain k' v' where p: "p = (k', v')" by (cases p)
  show ?case
  proof (cases "k' = k")
    case True
    with Cons.prems p show ?thesis by simp
  next
    case False
    from Cons.prems p have "v' \<notin> set (map snd al)" and "v' \<noteq> v" by auto
    with update_snd_subset [of k v al] have "v' \<notin> set (map snd (AList.update k v al))"
      by auto
    with False p Cons show ?thesis by simp
  qed
qed

definition refs_valid :: "creator \<Rightarrow> bool" where
  "refs_valid s \<longleftrightarrow> (\<forall>r \<in> set (map snd (domains s)). r < length (heap s))"

lemma refs_valid_map_of: "refs_valid s \<Longrightarrow> map_of (domains s) v = Some r \<Longrightarrow> r < length (heap s)"
  unfolding refs_valid_def by (force dest: map_of_SomeD)

lemma enforce_node_consistency_loop_dom:
  assumes "enforce_node_consistency_loop vs s = Inr s'" and "refs_valid s"
  shows "refs_valid s' \<and>
     (distinct (map snd (domains s)) \<longrightarrow> distinct (map snd (domains s'))) \<and>
     (\<forall>v. (map_of (domains s') v = None) = (map_of (domains s) v = None)) \<and>
     (\<forall>v. dom_list s' v =
        (if v \<in> set vs then filter (\<lambda>w. var_length v = length w) (dom_list s v)
         else dom_list s v))"
  using assms
proof (induction vs arbitrary: s)
  case Nil
  then show ?case by simp
next
  case (Cons var rest)
  from Cons.prems(1) obtain d where d: "domain_of s var = Inr d"
    by (auto split: sum.splits)
  define s1 where "s1 = \<lparr> domains = AList.update var (length (heap s)) (domains s),
     heap = heap s @ [filter (\<lambda>word. var_length var = length word) d] \<rparr>"
  from Cons.prems(1) d have run: "enforce_node_consistency_loop rest s1 = Inr s'"
    by (simp add: s1_def)
  have valid1: "refs_valid s1"
    using Cons.prems(2) update_snd_subset [of var "length (heap s)" "domains s"]
    unfolding refs_valid_def s1_def by fastforce
  have dist1: "distinct (map snd (domains s1))" if "distinct (map snd (domains s))"
  proof -
    from Cons.prems(2) have "length (heap s) \<notin> set (map snd (domains s))"
      unfolding refs_valid_def by blast
    with that show ?thesis
      by (simp add: s1_def update_snd_distinct)
  qed
  have keys1: "(map_of (domains s1) v = None) = (map_of (domains s) v = None)" for v
    using d by (auto simp: s1_def update_conv' domain_of_def split: option.splits)
  have dom1: "dom_list s1 v =
      (if v = var then filter (\<lambda>w. var_length v = length w) (dom_list s v) else dom_list s v)" for v
  proof (cases "v = var")
    case True
    then show ?thesis
      using dom_list_Inr [OF d]
      by (simp add: s1_def dom_list_def domain_of_def update_conv' heap_get_def)
  next
    case False
    show ?thesis
    proof (cases "map_of (domains s) v")
      case None
      with False show ?thesis
        by (simp add: s1_def dom_list_def domain_of_def update_conv')
    next
      case (Some r)
      with refs_valid_map_of [OF Cons.prems(2)] have "r < length (heap s)" by blast
      with False Some show ?thesis
        by (simp add: s1_def dom_list_def domain_of_def update_conv' heap_get_def nth_append)
    qed
  qed
  from Cons.IH [OF run valid1] have
    v': "refs_valid s'" and
    dist': "distinct (map snd (domains s1)) \<longrightarrow> distinct (map snd (domains s'))" and
    keys': "\<forall>v. (map_of (domains s') v = None) = (map_of (domains s1) v = None)" and
    dom': "\<forall>v. dom_list s' v =
        (if v \<in> set rest then filter (\<lambda>w. var_length v = length w) (dom_list s1 v)
         else dom_list s1 v)"
    by blast+
  show ?case
  proof (intro conjI allI impI)
    show "refs_valid s'" by fact
    show "distinct (map snd (domains s'))" if "distinct (map snd (domains s))"
      using that dist1 dist' by blast
    show "(map_of (domains s') v = None) = (map_of (domains s) v = None)" for v
      using keys' keys1 by simp
    show "dom_list s' v =
        (if v \<in> set (var # rest) then filter (\<lambda>w. var_length v = length w) (dom_list s v)
         else dom_list s v)" for v
      using dom' dom1 [of v] by auto
  qed
qed

lemma wf_state_refs_valid: "wf_state cw s \<Longrightarrow> refs_valid s"
  by (simp add: wf_state_def refs_valid_def list_all_iff)

lemma enforce_node_consistency_dom:
  assumes "enforce_node_consistency cw s = Inr s'" and "wf_state cw s"
  shows "wf_state cw s'"
    and "v \<in> set (variables cw) \<Longrightarrow>
           dom_list s' v = filter (\<lambda>w. var_length v = length w) (dom_list s v)"
    and "v \<notin> set (variables cw) \<Longrightarrow> dom_list s' v = dom_list s v"
    and "node_consistent cw s'"
proof -
  note l = enforce_node_consistency_loop_dom
    [OF assms(1) [unfolded enforce_node_consistency_def] wf_state_refs_valid [OF assms(2)]]
  from l assms(2) show "wf_state cw s'"
    by (simp add: wf_state_def refs_valid_def list_all_iff)
  from l show d: "v \<in> set (variables cw) \<Longrightarrow>
           dom_list s' v = filter (\<lambda>w. var_length v = length w) (dom_list s v)" for v
    by simp
  from l show "v \<notin> set (variables cw) \<Longrightarrow> dom_list s' v = dom_list s v"
    by simp
  from d show "node_consistent cw s'"
    by (auto simp: node_consistent_def list_all_iff)
qed

lemma enforce_node_consistency_loop_total:
  "\<forall>v \<in> set vs. map_of (domains s) v \<noteq> None \<Longrightarrow> \<exists>s'. enforce_node_consistency_loop vs s = Inr s'"
proof (induction vs arbitrary: s)
  case Nil
  show ?case by simp
next
  case (Cons var rest)
  from Cons.prems obtain r where r: "map_of (domains s) var = Some r" by auto
  let ?s1 = "\<lparr> domains = AList.update var (length (heap s)) (domains s),
     heap = heap s @ [filter (\<lambda>word. var_length var = length word) (heap_get (heap s) r)] \<rparr>"
  from Cons.prems have "\<forall>v \<in> set rest. map_of (domains ?s1) v \<noteq> None"
    by (simp add: update_conv')
  from Cons.IH [OF this] r show ?case
    by (simp add: domain_of_def)
qed

subsection \<open>When revise returns\<close>

lemma all_differ_total:
  "i < length w \<Longrightarrow> \<forall>v \<in> set dy. j < length v \<Longrightarrow>
     all_differ w i j dy = Inr (\<not> supported i j dy w)"
  by (induction dy) (auto simp: supported_def agree_def)

lemma revise_loop_total:
  "\<forall>w \<in> set dx. i < length w \<Longrightarrow> \<forall>v \<in> set dy. j < length v \<Longrightarrow>
     \<exists>r. revise_loop i j dy dx acc = Inr r"
proof (induction dx arbitrary: acc)
  case Nil
  show ?case by simp
next
  case (Cons w dx)
  obtain c tr where acc: "acc = (c, tr)" by (cases acc)
  from Cons.prems have "all_differ w i j dy = Inr (\<not> supported i j dy w)"
    by (simp add: all_differ_total)
  with Cons acc show ?case
    by (cases "supported i j dy w") simp_all
qed

lemma revise_total:
  assumes "map_of (overlaps cw) (x, y) = Some (Some (i, j))"
    and "map_of (domains s) x \<noteq> None" and "map_of (domains s) y \<noteq> None"
    and "\<forall>w \<in> set (dom_list s x). i < length w" and "\<forall>v \<in> set (dom_list s y). j < length v"
  shows "\<exists>c s'. revise cw x y s = Inr (c, s')"
proof -
  from assms(2,3) obtain rx ry where
    rx: "map_of (domains s) x = Some rx" and ry: "map_of (domains s) y = Some ry"
    by auto
  from revise_loop_total [of "heap_get (heap s) rx" i "heap_get (heap s) ry" j "(False, [])"]
    assms(4,5) rx ry
  obtain r where "revise_loop i j (heap_get (heap s) ry) (heap_get (heap s) rx) (False, []) = Inr r"
    by (auto simp: dom_list_ref)
  with assms(1) rx ry show ?thesis
    by (cases r) (simp add: revise_def domain_of_def)
qed

subsection \<open>The checker against its specification\<close>

text \<open>The three conditions of the specification of the checker: every assigned word has
  the length of its slot; every two assigned slots with an overlap relation agree at
  their overlap indices; the assigned words are pairwise distinct.\<close>

definition lengths_match :: "assignment \<Rightarrow> bool" where
  "lengths_match a = list_all (\<lambda>(var, word). var_length var = length word) a"

definition overlaps_agree :: "crossword \<Rightarrow> assignment \<Rightarrow> bool" where
  "overlaps_agree cw a =
     list_all (\<lambda>(x, wx). list_all (\<lambda>(y, wy).
         (case map_of (overlaps cw) (x, y) of
            Some (Some (i, j)) \<Rightarrow> agree wx i wy j
          | _ \<Rightarrow> True)) a) a"

definition words_distinct :: "assignment \<Rightarrow> bool" where
  "words_distinct a = distinct (map snd a)"

definition is_consistent :: "crossword \<Rightarrow> assignment \<Rightarrow> bool" where
  "is_consistent cw a \<longleftrightarrow> lengths_match a \<and> overlaps_agree cw a \<and> words_distinct a"

definition pair_ok :: "crossword \<Rightarrow> assignment \<Rightarrow> variable \<Rightarrow> string \<Rightarrow> variable \<Rightarrow> bool" where
  "pair_ok cw a var word n =
     (case map_of a n of
        None \<Rightarrow> True
      | Some nw \<Rightarrow>
          (case map_of (overlaps cw) (var, n) of
             Some (Some (i, j)) \<Rightarrow> agree word i nw j
           | _ \<Rightarrow> True))"

lemma check_neighbors_Inr:
  "check_neighbors cw a var word ns = Inr b \<Longrightarrow> b = list_all (pair_ok cw a var word) ns"
proof (induction ns)
  case Nil
  then show ?case by simp
next
  case (Cons n ns)
  show ?case
  proof (cases "map_of a n")
    case None
    with Cons show ?thesis by (simp add: pair_ok_def)
  next
    case (Some nw)
    with Cons.prems obtain i j where ov: "map_of (overlaps cw) (var, n) = Some (Some (i, j))"
      by (auto split: option.splits)
    from Cons.prems Some ov have rng: "i < length word \<and> j < length nw"
      by (auto split: if_splits)
    show ?thesis
    proof (cases "word ! i = nw ! j")
      case True
      with Cons.prems Some ov rng have "check_neighbors cw a var word ns = Inr b" by simp
      from Cons.IH [OF this] Some ov rng True show ?thesis
        by (simp add: pair_ok_def agree_def)
    next
      case False
      with Cons.prems Some ov rng have "b = False" by simp
      with Some ov False show ?thesis
        by (simp add: pair_ok_def agree_def)
    qed
  qed
qed

lemma consistent_loop_Inr:
  "consistent_loop cw a items = Inr b \<Longrightarrow>
     b = list_all (\<lambda>(var, word). var_length var = length word \<and>
                      list_all (pair_ok cw a var word) (neighbors cw var)) items"
proof (induction items)
  case Nil
  then show ?case by simp
next
  case (Cons p items)
  obtain var word where p: "p = (var, word)" by (cases p)
  show ?case
  proof (cases "var_length var = length word")
    case False
    with Cons.prems p show ?thesis by simp
  next
    case True
    show ?thesis
    proof (cases "check_neighbors cw a var word (neighbors cw var)")
      case (Inl e)
      with Cons.prems p True show ?thesis by simp
    next
      case (Inr c)
      note c = check_neighbors_Inr [OF Inr]
      show ?thesis
      proof (cases c)
        case False
        with Cons.prems p True Inr c show ?thesis by simp
      next
        case c_true: True
        with Cons.prems p True Inr have "consistent_loop cw a items = Inr b" by simp
        from Cons.IH [OF this] p True c c_true show ?thesis by simp
      qed
    qed
  qed
qed

lemma neighbors_iff:
  "n \<in> set (neighbors cw var) \<longleftrightarrow>
     n \<in> set (variables cw) \<and> n \<noteq> var \<and> (\<exists>ij. map_of (overlaps cw) (n, var) = Some (Some ij))"
  by (auto simp: neighbors_def split: option.splits)

lemma pairs_ok_overlaps_agree:
  assumes "wf_crossword cw" and "distinct (map fst a)"
  shows "list_all (\<lambda>(var, word). list_all (pair_ok cw a var word) (neighbors cw var)) a
     \<longleftrightarrow> overlaps_agree cw a"
proof
  assume l: "list_all (\<lambda>(var, word). list_all (pair_ok cw a var word) (neighbors cw var)) a"
  show "overlaps_agree cw a"
    unfolding overlaps_agree_def list_all_iff
  proof (intro ballI, clarify)
    fix x wx y wy
    assume x: "(x, wx) \<in> set a" and y: "(y, wy) \<in> set a"
    show "case map_of (overlaps cw) (x, y) of
            Some (Some (i, j)) \<Rightarrow> agree wx i wy j | _ \<Rightarrow> True"
    proof (cases "map_of (overlaps cw) (x, y)")
      case None
      then show ?thesis by simp
    next
      case (Some ov)
      show ?thesis
      proof (cases ov)
        case None
        with Some show ?thesis by simp
      next
        case (Some ij)
        obtain i j where ij: "ij = (i, j)" by (cases ij)
        with Some \<open>map_of (overlaps cw) (x, y) = Some ov\<close>
        have ov: "map_of (overlaps cw) (x, y) = Some (Some (i, j))" by simp
        from wf_crossword_overlap [OF assms(1) ov]
        have "y \<in> set (neighbors cw x)"
          by (simp add: neighbors_iff)
        with l x have "pair_ok cw a x wx y"
          by (auto simp: list_all_iff)
        moreover from assms(2) y have "map_of a y = Some wy" by simp
        ultimately show ?thesis using ov by (simp add: pair_ok_def)
      qed
    qed
  qed
next
  assume o: "overlaps_agree cw a"
  show "list_all (\<lambda>(var, word). list_all (pair_ok cw a var word) (neighbors cw var)) a"
    unfolding list_all_iff
  proof (intro ballI, clarify)
    fix x wx n
    assume x: "(x, wx) \<in> set a"
    show "pair_ok cw a x wx n"
    proof (cases "map_of a n")
      case None
      then show ?thesis by (simp add: pair_ok_def)
    next
      case (Some nw)
      then have "(n, nw) \<in> set a" by (rule map_of_SomeD)
      with o x have "case map_of (overlaps cw) (x, n) of
            Some (Some (i, j)) \<Rightarrow> agree wx i nw j | _ \<Rightarrow> True"
        unfolding overlaps_agree_def list_all_iff by fast
      with Some show ?thesis by (simp add: pair_ok_def)
    qed
  qed
qed

lemma remdups_length_distinct: "length xs \<noteq> length (remdups xs) \<longleftrightarrow> \<not> distinct xs"
  by (metis distinct_remdups distinct_remdups_id length_remdups_eq)

lemma remdups_length_distinct_snd:
  "length a \<noteq> length (remdups (map snd a)) \<longleftrightarrow> \<not> distinct (map snd a)"
  using remdups_length_distinct [of "map snd a"] by simp

lemma consistent_Inr:
  assumes "consistent cw a = Inr b" and "wf_crossword cw" and "distinct (map fst a)"
  shows "b = is_consistent cw a"
proof -
  from assms(1) obtain c where c: "consistent_loop cw a a = Inr c"
    by (auto simp: consistent_def split: sum.splits)
  from consistent_loop_Inr [OF c]
  have "c = (lengths_match a \<and>
      list_all (\<lambda>(var, word). list_all (pair_ok cw a var word) (neighbors cw var)) a)"
    by (auto simp: lengths_match_def list_all_iff)
  with pairs_ok_overlaps_agree [OF assms(2,3)]
  have c': "c = (lengths_match a \<and> overlaps_agree cw a)" by simp
  show ?thesis
  proof (cases c)
    case False
    with assms(1) c have "b = False" by (simp add: consistent_def)
    with False c' show ?thesis by (auto simp: is_consistent_def)
  next
    case True
    with assms(1) c have "b = distinct (map snd a)"
      by (auto simp: consistent_def remdups_length_distinct_snd split: if_splits)
    with True c' show ?thesis by (simp add: is_consistent_def words_distinct_def)
  qed
qed

lemma check_neighbors_total:
  assumes "wf_crossword cw" and "lengths_match a" and "var_length var = length word"
    and "set ns \<subseteq> set (neighbors cw var)"
  shows "\<exists>b. check_neighbors cw a var word ns = Inr b"
  using assms(4)
proof (induction ns)
  case Nil
  show ?case by auto
next
  case (Cons n ns)
  then obtain b where b: "check_neighbors cw a var word ns = Inr b" by auto
  show ?case
  proof (cases "map_of a n")
    case None
    with b show ?thesis by simp
  next
    case (Some nw)
    from Cons.prems obtain ij where "map_of (overlaps cw) (n, var) = Some (Some ij)"
      by (auto simp: neighbors_iff)
    then obtain j i where "map_of (overlaps cw) (n, var) = Some (Some (j, i))"
      by (cases ij) auto
    from wf_crossword_overlap [OF assms(1) this]
    have ov: "map_of (overlaps cw) (var, n) = Some (Some (i, j))"
      and i: "i < var_length var" and j: "j < var_length n"
      by simp_all
    from Some have "(n, nw) \<in> set a" by (rule map_of_SomeD)
    with assms(2) have "var_length n = length nw"
      by (auto simp: lengths_match_def list_all_iff)
    with Some ov i j assms(3) b show ?thesis by auto
  qed
qed

lemma consistent_loop_total:
  assumes "wf_crossword cw" and "lengths_match a" and "set items \<subseteq> set a"
  shows "\<exists>b. consistent_loop cw a items = Inr b"
  using assms(3)
proof (induction items)
  case Nil
  show ?case by auto
next
  case (Cons p items)
  obtain var word where p: "p = (var, word)" by (cases p)
  from Cons obtain b where b: "consistent_loop cw a items = Inr b" by auto
  from Cons.prems p assms(2) have len: "var_length var = length word"
    by (auto simp: lengths_match_def list_all_iff)
  from check_neighbors_total [OF assms(1,2) len subset_refl]
  obtain c where c: "check_neighbors cw a var word (neighbors cw var) = Inr c" by blast
  have "consistent_loop cw a (p # items) = Inr (if c then b else False)"
    using p len b c by (cases c) simp_all
  then show ?case by blast
qed

lemma consistent_total:
  assumes "wf_crossword cw" and "lengths_match a"
  shows "\<exists>b. consistent cw a = Inr b"
proof -
  from consistent_loop_total [OF assms subset_refl]
  obtain c where "consistent_loop cw a a = Inr c" by blast
  then show ?thesis by (cases c) (auto simp: consistent_def)
qed

subsection \<open>Correctness of the worklist loop\<close>

text \<open>An arc \<open>(x, y)\<close> is consistent when every word of the domain of \<open>x\<close> has a partner
  in the domain of \<open>y\<close> that agrees with it at the overlap indices.\<close>

definition arc_ok :: "crossword \<Rightarrow> creator \<Rightarrow> variable \<times> variable \<Rightarrow> bool" where
  "arc_ok cw s k =
     (case map_of (overlaps cw) k of
        Some (Some (i, j)) \<Rightarrow> list_all (supported i j (dom_list s (snd k))) (dom_list s (fst k))
      | _ \<Rightarrow> True)"

definition arc_consistent :: "crossword \<Rightarrow> creator \<Rightarrow> bool" where
  "arc_consistent cw s = list_all (arc_ok cw s) (map fst (overlaps cw))"

text \<open>The invariant of the loop: an arc that is not waiting in the worklist is
  consistent.\<close>

definition pending_inv :: "crossword \<Rightarrow> (variable \<times> variable) list \<Rightarrow> creator \<Rightarrow> bool" where
  "pending_inv cw arcs s = list_all (\<lambda>k. k \<in> set arcs \<or> arc_ok cw s k) (map fst (overlaps cw))"

lemma arc_ok_overlap:
  "map_of (overlaps cw) (x, y) = Some (Some (i, j)) \<Longrightarrow>
     arc_ok cw s (x, y) \<longleftrightarrow> (\<forall>w \<in> set (dom_list s x). supported i j (dom_list s y) w)"
  by (simp add: arc_ok_def list_all_iff)

lemma arc_ok_no_overlap:
  "(\<And>i j. map_of (overlaps cw) k \<noteq> Some (Some (i, j))) \<Longrightarrow> arc_ok cw s k"
  by (auto simp: arc_ok_def split: option.splits)

lemma overlap_key: "map_of (overlaps cw) k = Some ov \<Longrightarrow> k \<in> set (map fst (overlaps cw))"
  by (metis map_of_eq_None_iff option.distinct(1) set_map)

lemma agree_sym: "agree w i v j \<longleftrightarrow> agree v j w i"
  by (auto simp: agree_def)

lemma revise_arc_ok:
  assumes r: "revise cw x y s = Inr (c, s1)"
    and ov: "map_of (overlaps cw) (x, y) = Some (Some (i, j))"
    and ne: "x \<noteq> y" and dist: "distinct (map snd (domains s))"
  shows "arc_ok cw s1 (x, y)"
proof -
  note d = revise_overlap_dom [OF r ov]
  from d(5) [OF dist, of y] ne have "dom_list s1 y = dom_list s y" by simp
  with d(2) show ?thesis
    by (simp add: arc_ok_overlap [OF ov])
qed

lemma revise_keeps_arc_ok:
  assumes wf: "wf_crossword cw"
    and r: "revise cw x y s = Inr (c, s1)"
    and ov: "map_of (overlaps cw) (x, y) = Some (Some (i, j))"
    and dist: "distinct (map snd (domains s))"
    and ok: "arc_ok cw s (u, v)"
    and other: "v \<noteq> x \<or> (u, v) = (y, x)"
  shows "arc_ok cw s1 (u, v)"
proof (cases "\<exists>i' j'. map_of (overlaps cw) (u, v) = Some (Some (i', j'))")
  case False
  then show ?thesis by (auto intro: arc_ok_no_overlap)
next
  case True
  then obtain i' j' where uv: "map_of (overlaps cw) (u, v) = Some (Some (i', j'))" by blast
  note d = revise_overlap_dom [OF r ov]
  note xy = wf_crossword_overlap [OF wf ov]
  have sub: "set (dom_list s1 u) \<subseteq> set (dom_list s u)"
    by (rule shrinks_dom_list [OF revise_shrinks [OF r]])
  from ok have all: "\<forall>w \<in> set (dom_list s u). supported i' j' (dom_list s v) w"
    by (simp add: arc_ok_overlap [OF uv])
  show ?thesis
  proof (cases "v = x")
    case False
    from d(5) [OF dist False] have "dom_list s1 v = dom_list s v" .
    with all sub show ?thesis
      by (auto simp: arc_ok_overlap [OF uv])
  next
    case True
    with other have u: "u = y" and v: "v = x" by simp_all
    from uv u v xy(4) have ij: "i' = j" "j' = i" by simp_all
    from d(5) [OF dist, of y] xy(3) have y: "dom_list s1 y = dom_list s y" by simp
    have "supported j i (dom_list s1 x) w'" if w': "w' \<in> set (dom_list s y)" for w'
    proof -
      from all w' u v ij obtain w where w: "w \<in> set (dom_list s x)" and a: "agree w' j w i"
        by (auto simp: supported_def)
      from a w' have "supported i j (dom_list s y) w"
        by (auto simp: supported_def agree_sym [of w i])
      with w d(2) have "w \<in> set (dom_list s1 x)" by simp
      with a show ?thesis by (auto simp: supported_def)
    qed
    with u v ij y show ?thesis
      by (simp add: arc_ok_overlap [OF uv [unfolded u v]] ij)
  qed
qed

lemma ac3_step_inv:
  assumes wf: "wf_crossword cw"
    and dist: "distinct (map snd (domains s))"
    and inv: "pending_inv cw ((x, y) # arcs) s"
    and r: "revise cw x y s = Inr (c, s1)"
  shows "pending_inv cw
     (if c then arcs @ map (\<lambda>neighbor. (neighbor, x)) (removeAll y (neighbors cw x)) else arcs) s1"
proof (cases "\<exists>i j. map_of (overlaps cw) (x, y) = Some (Some (i, j))")
  case False
  with revise_no_overlap [OF r] have c: "\<not> c" and s1: "s1 = s" by auto
  from False have "arc_ok cw s (x, y)" by (auto intro: arc_ok_no_overlap)
  with inv c s1 show ?thesis
    by (auto simp: pending_inv_def list_all_iff)
next
  case True
  then obtain i j where ov: "map_of (overlaps cw) (x, y) = Some (Some (i, j))" by blast
  note xy = wf_crossword_overlap [OF wf ov]
  note this_arc = revise_arc_ok [OF r ov xy(3) dist]
  let ?new = "if c then arcs @ map (\<lambda>neighbor. (neighbor, x)) (removeAll y (neighbors cw x))
    else arcs"
  have "k \<in> set ?new \<or> arc_ok cw s1 k" if k: "k \<in> set (map fst (overlaps cw))" for k
  proof (cases "k = (x, y)")
    case True
    with this_arc show ?thesis by simp
  next
    case False
    obtain u v where uv: "k = (u, v)" by (cases k)
    from inv k False have old: "k \<in> set arcs \<or> arc_ok cw s k"
      by (auto simp: pending_inv_def list_all_iff)
    show ?thesis
    proof (cases "k \<in> set arcs")
      case True
      then show ?thesis by simp
    next
      case notin: False
      with old have ok: "arc_ok cw s (u, v)" by (simp add: uv)
      show ?thesis
      proof (cases "v \<noteq> x \<or> (u, v) = (y, x)")
        case True
        from revise_keeps_arc_ok [OF wf r ov dist ok True] show ?thesis
          by (simp add: uv)
      next
        case into_x: False
        then have v: "v = x" and u: "u \<noteq> y" by auto
        show ?thesis
        proof (cases c)
          case False
          with revise_unchanged [of cw x y s s1] r have "s1 = s" by simp
          with ok show ?thesis by (simp add: uv)
        next
          case c: True
          show ?thesis
          proof (cases "\<exists>i' j'. map_of (overlaps cw) (u, x) = Some (Some (i', j'))")
            case False
            then have "arc_ok cw s1 (u, x)" by (auto intro: arc_ok_no_overlap)
            with v show ?thesis by (simp add: uv)
          next
            case True
            then obtain i' j' where ux: "map_of (overlaps cw) (u, x) = Some (Some (i', j'))"
              by blast
            from wf_crossword_overlap [OF wf ux] have "u \<in> set (neighbors cw x)"
              using ux by (simp add: neighbors_iff)
            with u c v show ?thesis by (simp add: uv)
          qed
        qed
      qed
    qed
  qed
  then show ?thesis
    unfolding pending_inv_def list_all_iff by blast
qed

lemma ac3_loop_arc_consistent:
  "wf_crossword cw \<Longrightarrow> distinct (map snd (domains s)) \<Longrightarrow> pending_inv cw arcs s \<Longrightarrow>
     ac3_loop cw arcs s = Inr (True, s') \<Longrightarrow> arc_consistent cw s'"
proof (induction cw arcs s rule: ac3_loop.induct)
  case (1 cw s)
  then show ?case
    by (simp add: pending_inv_def arc_consistent_def)
next
  case (2 cw x y arcs s)
  note wf = "2.prems"(1)
  show ?case
  proof (cases "revise cw x y s")
    case (Inl e)
    with "2.prems" show ?thesis by simp
  next
    case (Inr p)
    obtain c s1 where p: "p = (c, s1)" by (cases p)
    note r = Inr [unfolded p]
    from revise_domains(1) [OF r] "2.prems"(2) have dist1: "distinct (map snd (domains s1))"
      by simp
    note step = ac3_step_inv [OF wf "2.prems"(2) "2.prems"(3) r]
    show ?thesis
    proof (cases c)
      case False
      then have c: "c = False" by simp
      from "2.prems"(4) r c have run: "ac3_loop cw arcs s1 = Inr (True, s')" by simp
      from step c have "pending_inv cw arcs s1" by simp
      from "2.IH"(2) [OF r [unfolded c] refl refl wf dist1 this run] show ?thesis .
    next
      case True
      then have c: "c = True" by simp
      show ?thesis
      proof (cases "domain_of s1 x")
        case (Inl e)
        with "2.prems"(4) r c show ?thesis by simp
      next
        case d: (Inr d)
        show ?thesis
        proof (cases "length d = 0")
          case True
          with "2.prems"(4) r c d show ?thesis by simp
        next
          case False
          with "2.prems"(4) r c d
          have run: "ac3_loop cw
              (arcs @ map (\<lambda>neighbor. (neighbor, x)) (removeAll y (neighbors cw x))) s1
              = Inr (True, s')"
            by simp
          from step c have "pending_inv cw
              (arcs @ map (\<lambda>neighbor. (neighbor, x)) (removeAll y (neighbors cw x))) s1"
            by simp
          from "2.IH"(1) [OF r [unfolded c] refl refl d False wf dist1 this run]
          show ?thesis .
        qed
      qed
    qed
  qed
qed

lemma all_arcs_iff:
  "k \<in> set (all_arcs cw) \<longleftrightarrow> (\<exists>ij. map_of (overlaps cw) k = Some (Some ij))"
proof
  assume "k \<in> set (all_arcs cw)"
  then have "k \<in> set (map fst (overlaps cw))" and "map_of (overlaps cw) k \<noteq> Some None"
    by (simp_all add: all_arcs_def)
  then show "\<exists>ij. map_of (overlaps cw) k = Some (Some ij)"
    by (cases "map_of (overlaps cw) k") (auto simp: map_of_eq_None_iff)
next
  assume "\<exists>ij. map_of (overlaps cw) k = Some (Some ij)"
  then show "k \<in> set (all_arcs cw)"
    by (auto simp: all_arcs_def dest: overlap_key)
qed

lemma pending_inv_all_arcs: "pending_inv cw (all_arcs cw) s"
  unfolding pending_inv_def list_all_iff
proof
  fix k assume "k \<in> set (map fst (overlaps cw))"
  show "k \<in> set (all_arcs cw) \<or> arc_ok cw s k"
  proof (cases "\<exists>ij. map_of (overlaps cw) k = Some (Some ij)")
    case True
    then show ?thesis by (simp add: all_arcs_iff)
  next
    case False
    then have "arc_ok cw s k" by (auto intro: arc_ok_no_overlap)
    then show ?thesis by simp
  qed
qed

lemma arc_consistent_overlap:
  assumes "arc_consistent cw s" and "map_of (overlaps cw) (x, y) = Some (Some (i, j))"
    and "w \<in> set (dom_list s x)"
  shows "\<exists>v \<in> set (dom_list s y). agree w i v j"
proof -
  from assms(1) overlap_key [OF assms(2)] have "arc_ok cw s (x, y)"
    unfolding arc_consistent_def list_all_iff by blast
  with assms(2,3) show ?thesis
    by (auto simp: arc_ok_overlap supported_def)
qed

text \<open>Soundness: propagation never removes the word that an assignment satisfying all
  overlap constraints gives to a slot.\<close>

definition chooses_from :: "creator \<Rightarrow> assignment \<Rightarrow> bool" where
  "chooses_from s A =
     list_all (\<lambda>v. case map_of A v of None \<Rightarrow> False | Some w \<Rightarrow> w \<in> set (dom_list s v))
       (map fst (domains s))"

lemma chooses_fromD:
  assumes "chooses_from s A" and "map_of (domains s) v \<noteq> None"
  shows "\<exists>w. map_of A v = Some w \<and> w \<in> set (dom_list s v)"
proof -
  from assms(2) have "v \<in> set (map fst (domains s))"
    by (simp add: map_of_eq_None_iff)
  with assms(1) show ?thesis
    by (auto simp: chooses_from_def list_all_iff split: option.splits)
qed

lemma overlaps_agreeD:
  assumes "overlaps_agree cw A" and "map_of A x = Some wx" and "map_of A y = Some wy"
    and "map_of (overlaps cw) (x, y) = Some (Some (i, j))"
  shows "agree wx i wy j"
proof -
  from assms(2,3) have "(x, wx) \<in> set A" and "(y, wy) \<in> set A"
    by (auto dest: map_of_SomeD)
  with assms(1) have "case map_of (overlaps cw) (x, y) of
      Some (Some (i, j)) \<Rightarrow> agree wx i wy j | _ \<Rightarrow> True"
    unfolding overlaps_agree_def list_all_iff by fast
  with assms(4) show ?thesis by simp
qed

lemma revise_chooses_from:
  assumes r: "revise cw x y s = Inr (c, s1)"
    and dist: "distinct (map snd (domains s))"
    and ch: "chooses_from s A" and ag: "overlaps_agree cw A"
  shows "chooses_from s1 A"
proof (cases "\<exists>i j. map_of (overlaps cw) (x, y) = Some (Some (i, j))")
  case False
  with revise_no_overlap [OF r] ch show ?thesis by auto
next
  case True
  then obtain i j where ov: "map_of (overlaps cw) (x, y) = Some (Some (i, j))" by blast
  note d = revise_overlap_dom [OF r ov]
  note doms = revise_domains(1) [OF r]
  have "case map_of A v of None \<Rightarrow> False | Some w \<Rightarrow> w \<in> set (dom_list s1 v)"
    if v: "v \<in> set (map fst (domains s))" for v
  proof -
    from v have "map_of (domains s) v \<noteq> None" by (simp add: map_of_eq_None_iff)
    from chooses_fromD [OF ch this] obtain w where
      w: "map_of A v = Some w" "w \<in> set (dom_list s v)" by blast
    show ?thesis
    proof (cases "v = x")
      case False
      from d(5) [OF dist False] w show ?thesis by simp
    next
      case True
      with w have "dom_list s x \<noteq> []" by auto
      from chooses_fromD [OF ch d(4) [OF this]] obtain wy where
        wy: "map_of A y = Some wy" "wy \<in> set (dom_list s y)" by blast
      from overlaps_agreeD [OF ag w(1) [unfolded True] wy(1) ov] wy(2)
      have "supported i j (dom_list s y) w" by (auto simp: supported_def)
      with d(2) w True show ?thesis by simp
    qed
  qed
  with doms show ?thesis
    by (simp add: chooses_from_def list_all_iff)
qed

lemma ac3_loop_sound:
  "distinct (map snd (domains s)) \<Longrightarrow> chooses_from s A \<Longrightarrow> overlaps_agree cw A \<Longrightarrow>
     ac3_loop cw arcs s = Inr (b, s') \<Longrightarrow> b \<and> chooses_from s' A"
proof (induction cw arcs s rule: ac3_loop.induct)
  case (1 cw s)
  then show ?case by simp
next
  case (2 cw x y arcs s)
  show ?case
  proof (cases "revise cw x y s")
    case (Inl e)
    with "2.prems" show ?thesis by simp
  next
    case (Inr p)
    obtain c s1 where p: "p = (c, s1)" by (cases p)
    note r = Inr [unfolded p]
    from revise_domains(1) [OF r] "2.prems"(1) have dist1: "distinct (map snd (domains s1))"
      by simp
    note ch1 = revise_chooses_from [OF r "2.prems"(1,2,3)]
    show ?thesis
    proof (cases c)
      case False
      then have c: "c = False" by simp
      from "2.prems"(4) r c have run: "ac3_loop cw arcs s1 = Inr (b, s')" by simp
      from "2.IH"(2) [OF r [unfolded c] refl refl dist1 ch1 "2.prems"(3) run] show ?thesis .
    next
      case True
      then have c: "c = True" by simp
      show ?thesis
      proof (cases "domain_of s1 x")
        case (Inl e)
        with "2.prems"(4) r c show ?thesis by simp
      next
        case d: (Inr d)
        then have key: "map_of (domains s1) x \<noteq> None"
          by (auto simp: domain_of_def split: option.splits)
        from chooses_fromD [OF ch1 key] dom_list_Inr [OF d] have "d \<noteq> []" by auto
        with "2.prems"(4) r c d
        have run: "ac3_loop cw
            (arcs @ map (\<lambda>neighbor. (neighbor, x)) (removeAll y (neighbors cw x))) s1
            = Inr (b, s')"
          by simp
        from \<open>d \<noteq> []\<close> have "length d \<noteq> 0" by simp
        from "2.IH"(1) [OF r [unfolded c] refl refl d this dist1 ch1 "2.prems"(3) run]
        show ?thesis .
      qed
    qed
  qed
qed

text \<open>On an arc-consistent state no revision changes anything, and on a node-consistent
  state of a well-formed puzzle the loop raises no exception.\<close>

lemma supported_length: "supported i j dy w \<Longrightarrow> i < length w"
  by (auto simp: supported_def agree_def)

lemma wf_state_domain: "wf_state cw s \<Longrightarrow> v \<in> set (variables cw) \<Longrightarrow> map_of (domains s) v \<noteq> None"
  by (simp add: wf_state_def list_all_iff)

lemma revise_fixpoint:
  assumes wf: "wf_crossword cw" and st: "wf_state cw s"
    and ov: "map_of (overlaps cw) (x, y) = Some (Some (i, j))"
    and ac: "arc_consistent cw s"
  shows "revise cw x y s = Inr (False, s)"
proof -
  note xy = wf_crossword_overlap [OF wf ov]
  from ac overlap_key [OF ov] have "arc_ok cw s (x, y)"
    unfolding arc_consistent_def list_all_iff by blast
  then have sx: "\<forall>w \<in> set (dom_list s x). supported i j (dom_list s y) w"
    by (simp add: arc_ok_overlap [OF ov])
  from ac overlap_key [OF xy(4)] have "arc_ok cw s (y, x)"
    unfolding arc_consistent_def list_all_iff by blast
  then have sy: "\<forall>v \<in> set (dom_list s y). supported j i (dom_list s x) v"
    by (simp add: arc_ok_overlap [OF xy(4)])
  from sx sy have "\<forall>w \<in> set (dom_list s x). i < length w"
    and "\<forall>v \<in> set (dom_list s y). j < length v"
    by (auto dest: supported_length)
  from revise_total [OF ov wf_state_domain [OF st xy(1)] wf_state_domain [OF st xy(2)] this]
  obtain c s' where r: "revise cw x y s = Inr (c, s')" by blast
  from revise_overlap_dom(3) [OF r ov] sx have "\<not> c" by simp
  with r revise_unchanged [of cw x y s s'] show ?thesis by simp
qed

lemma ac3_loop_fixpoint:
  assumes "wf_crossword cw" and "wf_state cw s" and "arc_consistent cw s"
  shows "set arcs \<subseteq> set (all_arcs cw) \<Longrightarrow> ac3_loop cw arcs s = Inr (True, s)"
proof (induction arcs)
  case Nil
  show ?case by simp
next
  case (Cons k arcs)
  obtain x y where k: "k = (x, y)" by (cases k)
  from Cons.prems k obtain ij where "map_of (overlaps cw) (x, y) = Some (Some ij)"
    by (auto simp: all_arcs_iff)
  then obtain i j where "map_of (overlaps cw) (x, y) = Some (Some (i, j))"
    by (cases ij) auto
  from revise_fixpoint [OF assms(1,2) this assms(3)] Cons k show ?case by simp
qed

lemma node_consistent_length:
  "node_consistent cw s \<Longrightarrow> v \<in> set (variables cw) \<Longrightarrow> w \<in> set (dom_list s v) \<Longrightarrow>
     length w = var_length v"
  by (auto simp: node_consistent_def list_all_iff)

lemma revise_node_consistent_total:
  assumes wf: "wf_crossword cw" and st: "wf_state cw s" and nc: "node_consistent cw s"
    and arc: "(x, y) \<in> set (all_arcs cw)"
  shows "\<exists>c s'. revise cw x y s = Inr (c, s')"
proof -
  from arc obtain ij where "map_of (overlaps cw) (x, y) = Some (Some ij)"
    by (auto simp: all_arcs_iff)
  then obtain i j where ov: "map_of (overlaps cw) (x, y) = Some (Some (i, j))"
    by (cases ij) auto
  note xy = wf_crossword_overlap [OF wf ov]
  from node_consistent_length [OF nc xy(1)] xy(5)
  have 1: "\<forall>w \<in> set (dom_list s x). i < length w" by simp
  from node_consistent_length [OF nc xy(2)] xy(6)
  have 2: "\<forall>v \<in> set (dom_list s y). j < length v" by simp
  from revise_total [OF ov wf_state_domain [OF st xy(1)] wf_state_domain [OF st xy(2)] 1 2]
  show ?thesis .
qed

lemma neighbor_arcs_all_arcs:
  "set (map (\<lambda>neighbor. (neighbor, x)) (removeAll y (neighbors cw x))) \<subseteq> set (all_arcs cw)"
  by (auto simp: all_arcs_iff neighbors_iff)

lemma ac3_loop_total:
  "wf_crossword cw \<Longrightarrow> wf_state cw s \<Longrightarrow> node_consistent cw s \<Longrightarrow>
     set arcs \<subseteq> set (all_arcs cw) \<Longrightarrow> \<exists>b s'. ac3_loop cw arcs s = Inr (b, s')"
proof (induction cw arcs s rule: ac3_loop.induct)
  case (1 cw s)
  show ?case by auto
next
  case (2 cw x y arcs s)
  from "2.prems"(4) have arc: "(x, y) \<in> set (all_arcs cw)" and rest: "set arcs \<subseteq> set (all_arcs cw)"
    by simp_all
  from revise_node_consistent_total [OF "2.prems"(1,2,3) arc]
  obtain c s1 where r: "revise cw x y s = Inr (c, s1)" by blast
  note sh = revise_shrinks [OF r]
  note st1 = shrinks_wf_state [OF sh "2.prems"(2)]
  note nc1 = shrinks_node_consistent [OF sh "2.prems"(3)]
  show ?case
  proof (cases c)
    case False
    then have c: "c = False" by simp
    from "2.IH"(2) [OF r [unfolded c] refl refl "2.prems"(1) st1 nc1 rest] r c
    show ?thesis by auto
  next
    case True
    then have c: "c = True" by simp
    from arc obtain ij where "map_of (overlaps cw) (x, y) = Some (Some ij)"
      by (auto simp: all_arcs_iff)
    then obtain i j where ov: "map_of (overlaps cw) (x, y) = Some (Some (i, j))"
      by (cases ij) auto
    from wf_state_domain [OF st1 wf_crossword_overlap(1) [OF "2.prems"(1) ov]]
    have d: "domain_of s1 x = Inr (dom_list s1 x)"
      by (rule domain_of_dom_list)
    show ?thesis
    proof (cases "length (dom_list s1 x) = 0")
      case True
      with r c d show ?thesis by auto
    next
      case False
      from rest neighbor_arcs_all_arcs [of x y cw]
      have "set (arcs @ map (\<lambda>neighbor. (neighbor, x)) (removeAll y (neighbors cw x)))
          \<subseteq> set (all_arcs cw)"
        by simp
      from "2.IH"(1) [OF r [unfolded c] refl refl d False "2.prems"(1) st1 nc1 this] r c d False
      show ?thesis by auto
    qed
  qed
qed

subsection \<open>Empty domains and the result of the loop\<close>

text \<open>A failing run leaves the domain it revised last empty; a successful run empties
  no domain. A domain that is empty before the run stays empty and does not make the
  run fail.\<close>

lemma ac3_loop_failure_empty:
  "ac3_loop cw arcs s = Inr (False, s') \<Longrightarrow> \<exists>x. domain_of s' x = Inr []"
proof (induction cw arcs s rule: ac3_loop.induct)
  case (1 cw s)
  then show ?case by simp
next
  case (2 cw x y arcs s)
  show ?case
  proof (cases "revise cw x y s")
    case (Inl e)
    with "2.prems" show ?thesis by simp
  next
    case (Inr p)
    obtain c s1 where p: "p = (c, s1)" by (cases p)
    note r = Inr [unfolded p]
    show ?thesis
    proof (cases c)
      case False
      then have c: "c = False" by simp
      from "2.prems" r c have "ac3_loop cw arcs s1 = Inr (False, s')" by simp
      from "2.IH"(2) [OF r [unfolded c] refl refl this] show ?thesis .
    next
      case True
      then have c: "c = True" by simp
      show ?thesis
      proof (cases "domain_of s1 x")
        case (Inl e)
        with "2.prems" r c show ?thesis by simp
      next
        case d: (Inr d)
        show ?thesis
        proof (cases "length d = 0")
          case True
          with "2.prems" r c d have "s' = s1" by simp
          with d True show ?thesis by auto
        next
          case False
          with "2.prems" r c d
          have "ac3_loop cw (arcs @ map (\<lambda>neighbor. (neighbor, x)) (removeAll y (neighbors cw x))) s1
              = Inr (False, s')"
            by simp
          from "2.IH"(1) [OF r [unfolded c] refl refl d False this] show ?thesis .
        qed
      qed
    qed
  qed
qed

lemma ac3_loop_success_nonempty:
  "distinct (map snd (domains s)) \<Longrightarrow> ac3_loop cw arcs s = Inr (True, s') \<Longrightarrow>
     dom_list s v \<noteq> [] \<Longrightarrow> dom_list s' v \<noteq> []"
proof (induction cw arcs s rule: ac3_loop.induct)
  case (1 cw s)
  then show ?case by simp
next
  case (2 cw x y arcs s)
  show ?case
  proof (cases "revise cw x y s")
    case (Inl e)
    with "2.prems" show ?thesis by simp
  next
    case (Inr p)
    obtain c s1 where p: "p = (c, s1)" by (cases p)
    note r = Inr [unfolded p]
    from revise_domains(1) [OF r] "2.prems"(1) have dist1: "distinct (map snd (domains s1))"
      by simp
    show ?thesis
    proof (cases c)
      case False
      then have c: "c = False" by simp
      from "2.prems"(2) r c have run: "ac3_loop cw arcs s1 = Inr (True, s')" by simp
      from revise_unchanged [OF r [unfolded c]] "2.prems"(3) have "dom_list s1 v \<noteq> []"
        by simp
      from "2.IH"(2) [OF r [unfolded c] refl refl dist1 run this] show ?thesis .
    next
      case True
      then have c: "c = True" by simp
      show ?thesis
      proof (cases "domain_of s1 x")
        case (Inl e)
        with "2.prems"(2) r c show ?thesis by simp
      next
        case d: (Inr d)
        show ?thesis
        proof (cases "length d = 0")
          case True
          with "2.prems"(2) r c d show ?thesis by simp
        next
          case False
          with "2.prems"(2) r c d
          have run: "ac3_loop cw
              (arcs @ map (\<lambda>neighbor. (neighbor, x)) (removeAll y (neighbors cw x))) s1
              = Inr (True, s')"
            by simp
          have "dom_list s1 v \<noteq> []"
          proof (cases "v = x")
            case True
            with dom_list_Inr [OF d] False show ?thesis by simp
          next
            case ne: False
            from r obtain i j where ov: "map_of (overlaps cw) (x, y) = Some (Some (i, j))"
              by (auto simp: c revise_def split: option.splits)
            from revise_overlap_dom(5) [OF r ov "2.prems"(1) ne] "2.prems"(3)
            show ?thesis by simp
          qed
          from "2.IH"(1) [OF r [unfolded c] refl refl d False dist1 run this] show ?thesis .
        qed
      qed
    qed
  qed
qed

subsection \<open>Example puzzles\<close>

text \<open>The grid
  \<^verbatim>\<open>
  ___
  _#_
  \<close>
  has an across slot of length 3 and two down slots of length 2 that cross it at its
  first and its last cell.\<close>

definition vx :: variable where
  "vx = \<lparr>var_i = 0, var_j = 0, direction = ACROSS, var_length = 3\<rparr>"

definition vy :: variable where
  "vy = \<lparr>var_i = 0, var_j = 0, direction = DOWN, var_length = 2\<rparr>"

definition vz :: variable where
  "vz = \<lparr>var_i = 0, var_j = 2, direction = DOWN, var_length = 2\<rparr>"

definition grid_overlaps :: "((variable \<times> variable) \<times> (nat \<times> nat) option) list" where
  "grid_overlaps =
     [((vx, vy), Some (0, 0)), ((vx, vz), Some (2, 0)),
      ((vy, vx), Some (0, 0)), ((vy, vz), None),
      ((vz, vx), Some (0, 2)), ((vz, vy), None)]"

definition cw1 :: crossword where
  "cw1 = \<lparr> variables = [vx, vy, vz], words = [''aba'', ''ab'', ''ad'', ''cd''],
           overlaps = grid_overlaps \<rparr>"

definition solution1 :: assignment where
  "solution1 = [(vx, ''aba''), (vy, ''ab''), (vz, ''ad'')]"

definition final1 :: creator where
  "final1 = \<lparr> domains = [(vx, 3), (vy, 4), (vz, 5)],
              heap = [[''aba'', ''ab'', ''ad'', ''cd''], [''aba'', ''ab'', ''ad'', ''cd''],
                      [''aba'', ''ab'', ''ad'', ''cd''], [''aba''], [''ab'', ''ad''],
                      [''ab'', ''ad'']] \<rparr>"

definition cw2 :: crossword where
  "cw2 = \<lparr> variables = [vx, vy, vz], words = [''aba'', ''ab'', ''cd''],
           overlaps = grid_overlaps \<rparr>"

definition state2 :: creator where
  "state2 = \<lparr> domains = [(vx, 3), (vy, 4), (vz, 5)],
          heap = [[''aba'', ''ab'', ''cd''], [''aba'', ''ab'', ''cd''],
                  [''aba'', ''ab'', ''cd''], [''aba''], [''ab'', ''cd''], [''ab'', ''cd'']] \<rparr>"

definition state2_ac3 :: creator where
  "state2_ac3 = \<lparr> domains = [(vx, 3), (vy, 4), (vz, 5)],
              heap = [[''aba'', ''ab'', ''cd''], [''aba'', ''ab'', ''cd''],
                      [''aba'', ''ab'', ''cd''], [''aba''], [''ab''], [''ab'']] \<rparr>"

text \<open>The grid
  \<^verbatim>\<open>
  __
  _#
  \<close>
  has an across slot and a down slot of length 2 that share their first cell.\<close>

definition va :: variable where
  "va = \<lparr>var_i = 0, var_j = 0, direction = ACROSS, var_length = 2\<rparr>"

definition vd :: variable where
  "vd = \<lparr>var_i = 0, var_j = 0, direction = DOWN, var_length = 2\<rparr>"

definition cw3 :: crossword where
  "cw3 = \<lparr> variables = [va, vd], words = [''ab''],
           overlaps = [((va, vd), Some (0, 0)), ((vd, va), Some (0, 0))] \<rparr>"

definition state3 :: creator where
  "state3 = \<lparr> domains = [(va, 2), (vd, 3)], heap = [[''ab''], [''ab''], [''ab''], [''ab'']] \<rparr>"

text \<open>The grid
  \<^verbatim>\<open>
  ___#
  _###
  ####
  ____
  \<close>
  has an across slot of length 3, a down slot of length 2 through its first cell, and a
  separate across slot of length 4. The slots are listed in one of the orders in which
  Python may iterate over the set \<^verbatim>\<open>crossword.variables\<close>.\<close>

definition vdown :: variable where
  "vdown = \<lparr>var_i = 0, var_j = 0, direction = DOWN, var_length = 2\<rparr>"

definition vtop :: variable where
  "vtop = \<lparr>var_i = 0, var_j = 0, direction = ACROSS, var_length = 3\<rparr>"

definition vlow :: variable where
  "vlow = \<lparr>var_i = 3, var_j = 0, direction = ACROSS, var_length = 4\<rparr>"

definition cw4 :: crossword where
  "cw4 = \<lparr> variables = [vdown, vtop, vlow], words = [''ab'', ''ac'', ''abc'', ''abcd''],
           overlaps = [((vdown, vtop), Some (0, 0)), ((vdown, vlow), None),
                       ((vtop, vdown), Some (0, 0)), ((vtop, vlow), None),
                       ((vlow, vdown), None), ((vlow, vtop), None)] \<rparr>"

definition state4 :: creator where
  "state4 = \<lparr> domains = [(vdown, 3), (vtop, 4), (vlow, 5)],
              heap = [[''ab'', ''ac'', ''abc'', ''abcd''], [''ab'', ''ac'', ''abc'', ''abcd''],
                      [''ab'', ''ac'', ''abc'', ''abcd''], [''ab'', ''ac''], [''abc''],
                      [''abcd'']] \<rparr>"

text \<open>The grid
  \<^verbatim>\<open>
  ___##
  _####
  #####
  _____
  ####_
  ####_
  ####_
  \<close>
  has two separate crossings: an across slot of length 3 with a down slot of length 2,
  and an across slot of length 5 with a down slot of length 4. The vocabulary has no
  word of length 5.\<close>

definition v3 :: variable where
  "v3 = \<lparr>var_i = 0, var_j = 0, direction = ACROSS, var_length = 3\<rparr>"

definition v5 :: variable where
  "v5 = \<lparr>var_i = 3, var_j = 0, direction = ACROSS, var_length = 5\<rparr>"

definition v4 :: variable where
  "v4 = \<lparr>var_i = 3, var_j = 4, direction = DOWN, var_length = 4\<rparr>"

definition v2 :: variable where
  "v2 = \<lparr>var_i = 0, var_j = 0, direction = DOWN, var_length = 2\<rparr>"

definition cw5 :: crossword where
  "cw5 = \<lparr> variables = [v3, v5, v4, v2], words = [''abc'', ''ab'', ''cd'', ''wxyz''],
           overlaps = [((v3, v5), None), ((v3, v4), None), ((v3, v2), Some (0, 0)),
                       ((v5, v3), None), ((v5, v4), Some (4, 0)), ((v5, v2), None),
                       ((v4, v3), None), ((v4, v5), Some (0, 4)), ((v4, v2), None),
                       ((v2, v3), Some (0, 0)), ((v2, v5), None), ((v2, v4), None)] \<rparr>"

definition state5 :: "string list \<Rightarrow> string list \<Rightarrow> creator" where
  "state5 d4 d2 =
     \<lparr> domains = [(v3, 4), (v5, 5), (v4, 6), (v2, 7)],
       heap = [[''abc'', ''ab'', ''cd'', ''wxyz''], [''abc'', ''ab'', ''cd'', ''wxyz''],
               [''abc'', ''ab'', ''cd'', ''wxyz''], [''abc'', ''ab'', ''cd'', ''wxyz''],
               [''abc''], [], d4, d2] \<rparr>"

text \<open>The two-slot grid of \<open>cw3\<close> with a vocabulary that has no word of length 2.\<close>

definition cw6 :: crossword where
  "cw6 = \<lparr> variables = [va, vd], words = [''a''],
           overlaps = [((va, vd), Some (0, 0)), ((vd, va), Some (0, 0))] \<rparr>"

definition state6 :: creator where
  "state6 = \<lparr> domains = [(va, 2), (vd, 3)], heap = [[''a''], [''a''], [], []] \<rparr>"

text \<open>The grid of \<open>cw1\<close> with a vocabulary whose only word of length 3 fits neither word
  of length 2.\<close>

definition cw7 :: crossword where
  "cw7 = \<lparr> variables = [vx, vy, vz], words = [''xyz'', ''ab''], overlaps = grid_overlaps \<rparr>"

definition state7 :: "string list \<Rightarrow> string list \<Rightarrow> creator" where
  "state7 dx dy =
     \<lparr> domains = [(vx, 3), (vy, 4), (vz, 5)],
       heap = [[''xyz'', ''ab''], [''xyz'', ''ab''], [''xyz'', ''ab''], dx, dy, [''ab'']] \<rparr>"

section \<open>Solution validity\<close>

text \<open>
  Claim C1. Whenever \<open>solve\<close> returns an assignment rather than the no-solution marker,
  the assignment is complete (every slot of the puzzle has a word) and the consistency
  checker accepts it; on a well-formed puzzle this means that all lengths match, all
  overlap characters agree and the assigned words are pairwise distinct. The same holds
  for \<open>backtrack\<close> started from a partial assignment, or from a complete one that the
  checker accepts: the search hands back either its argument, when that is already
  complete, or an assignment that passed the checker when its last slot was filled.
\<close>

theorem solve_returns_complete_consistent:
  "(solve cw s = Inr (Some A, s') \<longrightarrow>
      assignment_complete cw A \<and> consistent cw A = Inr True) \<and>
   (wf_crossword cw \<and> solve cw s = Inr (Some A, s') \<longrightarrow>
      lengths_match A \<and> overlaps_agree cw A \<and> words_distinct A) \<and>
   ((assignment_complete cw a \<longrightarrow> consistent cw a = Inr True) \<and>
    backtrack cw s a = Inr (Some A, s') \<longrightarrow>
      assignment_complete cw A \<and> consistent cw A = Inr True)"
proof -
  have sol: "assignment_complete cw A \<and> consistent cw A = Inr True \<and> distinct (map fst A)"
    if r: "solve cw s = Inr (Some A, s')"
  proof -
    from r obtain s0 where "backtrack cw s0 [] = Inr (Some A, s')"
      by (auto simp: solve_def split: sum.splits)
    with backtrack_result_valid(1) [of cw s0 "[]"]
    have c: "assignment_complete cw A" and d: "A = [] \<or> consistent cw A = Inr True"
      and k: "distinct (map fst A)"
      by auto
    have "consistent cw [] = Inr True"
      by (simp add: consistent_def)
    with d have "consistent cw A = Inr True" by auto
    with c k show ?thesis by simp
  qed
  have spec: "lengths_match A \<and> overlaps_agree cw A \<and> words_distinct A"
    if h: "wf_crossword cw \<and> solve cw s = Inr (Some A, s')"
  proof -
    from h sol have "consistent cw A = Inr True" and "distinct (map fst A)" by simp_all
    from consistent_Inr [OF this(1) _ this(2)] h show ?thesis
      by (simp add: is_consistent_def)
  qed
  have bt: "assignment_complete cw A \<and> consistent cw A = Inr True"
    if h: "(assignment_complete cw a \<longrightarrow> consistent cw a = Inr True) \<and>
      backtrack cw s a = Inr (Some A, s')"
  proof -
    from h backtrack_result_valid(1) [of cw s a]
    have c: "assignment_complete cw A" and d: "A = a \<or> consistent cw A = Inr True"
      by blast+
    from c d h have "consistent cw A = Inr True" by auto
    with c show ?thesis by simp
  qed
  from sol spec bt show ?thesis by blast
qed

theorem solve_returns_complete_consistent_witness:
  "wf_crossword cw1 \<and>
   solve cw1 (init cw1) = Inr (Some solution1, final1) \<and>
   assignment_complete cw1 solution1 \<and> consistent cw1 solution1 = Inr True \<and>
   lengths_match solution1 \<and> overlaps_agree cw1 solution1 \<and> words_distinct solution1 \<and>
   \<not> assignment_complete cw1 [] \<and>
   backtrack cw1 final1 [] = Inr (Some solution1, final1)"
proof -
  have 0: "wf_crossword cw1"
    by code_simp
  have 1: "solve cw1 (init cw1) = Inr (Some solution1, final1)"
    by code_simp
  have 2: "\<not> assignment_complete cw1 []"
    by code_simp
  have 3: "backtrack cw1 final1 [] = Inr (Some solution1, final1)"
    by code_simp
  from 0 1 solve_returns_complete_consistent [of cw1 "init cw1" solution1 final1]
  have a: "assignment_complete cw1 solution1" "consistent cw1 solution1 = Inr True"
    "lengths_match solution1" "overlaps_agree cw1 solution1" "words_distinct solution1"
    by blast+
  from 2 3 solve_returns_complete_consistent [of cw1 final1 solution1 final1 "[]"]
  have "consistent cw1 solution1 = Inr True" by blast
  with 0 1 2 3 a show ?thesis by (intro conjI)
qed

section \<open>The postcondition of revise\<close>

text \<open>
  Claim C5. For slots \<open>x\<close>, \<open>y\<close> with an overlap at indices \<open>(i, j)\<close>, a returning call
  \<open>revise x y\<close> removes from the domain of \<open>x\<close> exactly the words \<open>w\<close> for which no word
  \<open>v\<close> of the domain of \<open>y\<close> has \<open>w[i] = v[j]\<close>, leaves every other domain as it was, and
  returns true if and only if a word was removed. For slots without an overlap it changes
  nothing and returns false. The call returns whenever both slots have a domain and the
  two indices lie inside the words of the two domains.
\<close>

theorem revise_postcondition:
  assumes "wf_state cw s"
  shows "(map_of (overlaps cw) (x, y) = Some (Some (i, j)) \<and> revise cw x y s = Inr (c, s') \<longrightarrow>
            dom_list s' x = filter (\<lambda>w. \<exists>v \<in> set (dom_list s y). agree w i v j) (dom_list s x) \<and>
            (\<forall>v. v \<noteq> x \<longrightarrow> domain_of s' v = domain_of s v) \<and>
            domains s' = domains s \<and>
            (c \<longleftrightarrow> (\<exists>w \<in> set (dom_list s x). w \<notin> set (dom_list s' x)))) \<and>
         (map_of (overlaps cw) (x, y) = Some None \<longrightarrow> revise cw x y s = Inr (False, s)) \<and>
         (map_of (overlaps cw) (x, y) = Some (Some (i, j)) \<and>
          map_of (domains s) x \<noteq> None \<and> map_of (domains s) y \<noteq> None \<and>
          (\<forall>w \<in> set (dom_list s x). i < length w) \<and> (\<forall>v \<in> set (dom_list s y). j < length v) \<longrightarrow>
            (\<exists>c s'. revise cw x y s = Inr (c, s')))"
proof (intro conjI impI)
  assume h: "map_of (overlaps cw) (x, y) = Some (Some (i, j)) \<and> revise cw x y s = Inr (c, s')"
  then have ov: "map_of (overlaps cw) (x, y) = Some (Some (i, j))"
    and r: "revise cw x y s = Inr (c, s')"
    by simp_all
  from assms have dist: "distinct (map snd (domains s))"
    by (simp add: wf_state_def)
  note d = revise_overlap_dom [OF r ov]
  have sup: "supported i j (dom_list s y) = (\<lambda>w. \<exists>v \<in> set (dom_list s y). agree w i v j)"
    by (rule ext) (simp add: supported_def)
  from d(2) sup
  show x: "dom_list s' x = filter (\<lambda>w. \<exists>v \<in> set (dom_list s y). agree w i v j) (dom_list s x)"
    by simp
  show "domains s' = domains s"
    by (rule revise_domains(1) [OF r])
  show "\<forall>v. v \<noteq> x \<longrightarrow> domain_of s' v = domain_of s v"
  proof (intro allI impI)
    fix v assume "v \<noteq> x"
    from d(5) [OF dist this] revise_domains(1) [OF r]
    show "domain_of s' v = domain_of s v"
      by (auto simp: dom_list_def domain_of_def split: option.splits)
  qed
  from d(3) x sup show "c \<longleftrightarrow> (\<exists>w \<in> set (dom_list s x). w \<notin> set (dom_list s' x))"
    by auto
next
  assume "map_of (overlaps cw) (x, y) = Some None"
  then show "revise cw x y s = Inr (False, s)"
    by (simp add: revise_def)
next
  assume "map_of (overlaps cw) (x, y) = Some (Some (i, j)) \<and>
          map_of (domains s) x \<noteq> None \<and> map_of (domains s) y \<noteq> None \<and>
          (\<forall>w \<in> set (dom_list s x). i < length w) \<and> (\<forall>v \<in> set (dom_list s y). j < length v)"
  then show "\<exists>c s'. revise cw x y s = Inr (c, s')"
    using revise_total by blast
qed

theorem revise_postcondition_witness:
  "wf_state cw2 state2 \<and>
   map_of (overlaps cw2) (vy, vx) = Some (Some (0, 0)) \<and>
   revise cw2 vy vx state2 = Inr (True, state2\<lparr>heap := (heap state2)[4 := [''ab'']]\<rparr>) \<and>
   dom_list (state2\<lparr>heap := (heap state2)[4 := [''ab'']]\<rparr>) vy
     = filter (\<lambda>w. \<exists>v \<in> set (dom_list state2 vx). agree w 0 v 0) (dom_list state2 vy) \<and>
   dom_list (state2\<lparr>heap := (heap state2)[4 := [''ab'']]\<rparr>) vy = [''ab''] \<and>
   domain_of (state2\<lparr>heap := (heap state2)[4 := [''ab'']]\<rparr>) vz = domain_of state2 vz \<and>
   map_of (overlaps cw2) (vy, vz) = Some None \<and>
   revise cw2 vy vz state2 = Inr (False, state2)"
proof -
  let ?s' = "state2\<lparr>heap := (heap state2)[4 := [''ab'']]\<rparr>"
  have 1: "wf_state cw2 state2" by code_simp
  have 2: "map_of (overlaps cw2) (vy, vx) = Some (Some (0, 0))" by code_simp
  have 3: "revise cw2 vy vx state2 = Inr (True, ?s')" by code_simp
  have 4: "dom_list ?s' vy = [''ab'']" by code_simp
  have 5: "map_of (overlaps cw2) (vy, vz) = Some None" by code_simp
  have 6: "vz \<noteq> vy" by code_simp
  from revise_postcondition [OF 1, of vy vx 0 0 True ?s'] 2 3
  have a: "dom_list ?s' vy
      = filter (\<lambda>w. \<exists>v \<in> set (dom_list state2 vx). agree w 0 v 0) (dom_list state2 vy)"
    and b: "\<forall>v. v \<noteq> vy \<longrightarrow> domain_of ?s' v = domain_of state2 v"
    by blast+
  from revise_postcondition [OF 1, of vy vz] 5
  have c: "revise cw2 vy vz state2 = Inr (False, state2)" by blast
  from b 6 have d: "domain_of ?s' vz = domain_of state2 vz" by blast
  from 1 2 3 a 4 d 5 c show ?thesis by (intro conjI)
qed

section \<open>The length invariant\<close>

text \<open>
  Claim C9. After \<open>enforce_node_consistency\<close> the domain of every slot holds exactly the
  words of its former domain whose length is the length of the slot, so every remaining
  word has the right length and every word of another length is gone. The filter
  returns on every state in which each slot has a domain. \<open>revise\<close> and \<open>ac3\<close> only
  remove words: each domain after the call is a subset of the domain before it, and hence
  the length invariant \<open>node_consistent\<close> survives both.
\<close>

theorem length_invariant:
  "(wf_state cw s \<longrightarrow> (\<exists>s1. enforce_node_consistency cw s = Inr s1)) \<and>
   (wf_state cw s \<and> enforce_node_consistency cw s = Inr s1 \<longrightarrow>
      (\<forall>v \<in> set (variables cw).
         dom_list s1 v = filter (\<lambda>w. length w = var_length v) (dom_list s v)) \<and>
      node_consistent cw s1) \<and>
   (revise cw x y s = Inr (c, sa) \<longrightarrow>
      (\<forall>v. set (dom_list sa v) \<subseteq> set (dom_list s v)) \<and>
      (node_consistent cw s \<longrightarrow> node_consistent cw sa)) \<and>
   (ac3 cw arcs s = Inr (b, sb) \<longrightarrow>
      (\<forall>v. set (dom_list sb v) \<subseteq> set (dom_list s v)) \<and>
      (node_consistent cw s \<longrightarrow> node_consistent cw sb))"
proof (intro conjI impI)
  assume "wf_state cw s"
  then have "\<forall>v \<in> set (variables cw). map_of (domains s) v \<noteq> None"
    by (simp add: wf_state_def list_all_iff)
  from enforce_node_consistency_loop_total [OF this]
  show "\<exists>s1. enforce_node_consistency cw s = Inr s1"
    by (simp add: enforce_node_consistency_def)
next
  assume h: "wf_state cw s \<and> enforce_node_consistency cw s = Inr s1"
  then have e: "enforce_node_consistency cw s = Inr s1" and w: "wf_state cw s"
    by simp_all
  from enforce_node_consistency_dom(2) [OF e w]
  show "\<forall>v \<in> set (variables cw).
         dom_list s1 v = filter (\<lambda>w. length w = var_length v) (dom_list s v)"
    by (auto intro: filter_cong)
  show "node_consistent cw s1"
    by (rule enforce_node_consistency_dom(4) [OF e w])
next
  assume r: "revise cw x y s = Inr (c, sa)"
  from shrinks_dom_list [OF revise_shrinks [OF r]]
  show "\<forall>v. set (dom_list sa v) \<subseteq> set (dom_list s v)" by blast
  assume "node_consistent cw s"
  with revise_shrinks [OF r] show "node_consistent cw sa"
    by (rule shrinks_node_consistent)
next
  assume r: "ac3 cw arcs s = Inr (b, sb)"
  from shrinks_dom_list [OF ac3_shrinks [OF r]]
  show "\<forall>v. set (dom_list sb v) \<subseteq> set (dom_list s v)" by blast
  assume "node_consistent cw s"
  with ac3_shrinks [OF r] show "node_consistent cw sb"
    by (rule shrinks_node_consistent)
qed

theorem length_invariant_witness:
  "wf_state cw2 (init cw2) \<and> enforce_node_consistency cw2 (init cw2) = Inr state2 \<and>
   dom_list state2 vy = filter (\<lambda>w. length w = var_length vy) (dom_list (init cw2) vy) \<and>
   node_consistent cw2 state2 \<and>
   revise cw2 vy vx state2 = Inr (True, state2\<lparr>heap := (heap state2)[4 := [''ab'']]\<rparr>) \<and>
   node_consistent cw2 (state2\<lparr>heap := (heap state2)[4 := [''ab'']]\<rparr>) \<and>
   ac3 cw2 None state2 = Inr (True, state2_ac3) \<and>
   node_consistent cw2 state2_ac3 \<and>
   (\<forall>v. set (dom_list state2_ac3 v) \<subseteq> set (dom_list state2 v))"
proof -
  let ?s' = "state2\<lparr>heap := (heap state2)[4 := [''ab'']]\<rparr>"
  have 1: "wf_state cw2 (init cw2)" by code_simp
  have 2: "enforce_node_consistency cw2 (init cw2) = Inr state2" by code_simp
  have 3: "revise cw2 vy vx state2 = Inr (True, ?s')" by code_simp
  have 4: "ac3 cw2 None state2 = Inr (True, state2_ac3)" by code_simp
  from length_invariant [where cw = cw2 and s = "init cw2" and ?s1.0 = state2] 1 2 have a0: "\<forall>v \<in> set (variables cw2).
      dom_list state2 v = filter (\<lambda>w. length w = var_length v) (dom_list (init cw2) v)"
    and b: "node_consistent cw2 state2"
    by blast+
  have "vy \<in> set (variables cw2)" by code_simp
  with a0 have a: "dom_list state2 vy
      = filter (\<lambda>w. length w = var_length vy) (dom_list (init cw2) vy)"
    by blast
  from length_invariant [where cw = cw2 and s = state2 and x = vy and y = vx and c = True
      and sa = ?s'] 3 b
  have c: "node_consistent cw2 ?s'" by blast
  from length_invariant [where cw = cw2 and s = state2 and arcs = None and b = True
      and sb = state2_ac3] 4 b
  have d: "node_consistent cw2 state2_ac3"
    and e: "\<forall>v. set (dom_list state2_ac3 v) \<subseteq> set (dom_list state2 v)"
    by blast+
  from 1 2 a b 3 c 4 d e show ?thesis by (intro conjI)
qed

section \<open>Propagation does not enforce word uniqueness\<close>

text \<open>
  Claim C10. A word counts as its own support across an overlap: for slots \<open>x\<close>, \<open>y\<close>
  with overlap indices \<open>(i, j)\<close> and a word \<open>w\<close> with \<open>w[i] = w[j]\<close> that lies in both
  domains, \<open>revise x y\<close> does not remove \<open>w\<close> from the domain of \<open>x\<close>. Consequently
  \<open>ac3\<close> succeeds on a state whose only remaining combination uses one word for two
  slots; the checker \<open>consistent\<close> rejects that combination during the search, and
  \<open>solve\<close> reports no solution.
\<close>

theorem revise_keeps_self_supporting_word:
  "(map_of (overlaps cw) (x, y) = Some (Some (i, j)) \<and> revise cw x y s = Inr (c, s') \<and>
    w \<in> set (dom_list s x) \<and> w \<in> set (dom_list s y) \<and>
    i < length w \<and> j < length w \<and> w ! i = w ! j \<longrightarrow>
      w \<in> set (dom_list s' x)) \<and>
   (ac3 cw3 None state3 = Inr (True, state3) \<and>
    dom_list state3 va = [''ab''] \<and> dom_list state3 vd = [''ab''] \<and>
    consistent cw3 [(va, ''ab''), (vd, ''ab'')] = Inr False \<and>
    solve cw3 (init cw3) = Inr (None, state3))"
proof (intro conjI impI)
  assume h: "map_of (overlaps cw) (x, y) = Some (Some (i, j)) \<and> revise cw x y s = Inr (c, s') \<and>
    w \<in> set (dom_list s x) \<and> w \<in> set (dom_list s y) \<and>
    i < length w \<and> j < length w \<and> w ! i = w ! j"
  then have "supported i j (dom_list s y) w"
    by (auto simp: supported_def agree_def)
  with h revise_overlap_dom(2) [of cw x y s c s' i j]
  show "w \<in> set (dom_list s' x)" by simp
next
  show "ac3 cw3 None state3 = Inr (True, state3)" by code_simp
  show "dom_list state3 va = [''ab'']" by code_simp
  show "dom_list state3 vd = [''ab'']" by code_simp
  show "consistent cw3 [(va, ''ab''), (vd, ''ab'')] = Inr False" by code_simp
  show "solve cw3 (init cw3) = Inr (None, state3)" by code_simp
qed

theorem revise_keeps_self_supporting_word_witness:
  "map_of (overlaps cw3) (va, vd) = Some (Some (0, 0)) \<and>
   revise cw3 va vd state3 = Inr (False, state3) \<and>
   ''ab'' \<in> set (dom_list state3 va) \<and> ''ab'' \<in> set (dom_list state3 vd) \<and>
   (0::nat) < length ''ab'' \<and> ''ab'' ! 0 = ''ab'' ! 0"
proof -
  have 1: "map_of (overlaps cw3) (va, vd) = Some (Some (0, 0))" by code_simp
  have 2: "revise cw3 va vd state3 = Inr (False, state3)" by code_simp
  have 3: "dom_list state3 va = [''ab'']" "dom_list state3 vd = [''ab'']" by code_simp+
  from revise_keeps_self_supporting_word [of cw3 va vd 0 0 state3 False state3 "''ab''"] 1 2 3
  have "''ab'' \<in> set (dom_list state3 va)" by simp
  with 1 2 3 show ?thesis by simp
qed

section \<open>Domain restoration in the search\<close>

text \<open>
  Claim C2. The claim says that \<open>backtrack\<close> snapshots the domains by value and that the
  domains after a rejected candidate equal the domains before it. The code stores the
  addresses of the set objects, \<open>revise\<close> removes words from those objects in place, and
  the restoration binds every slot to the object it is already bound to. The theorem
  evaluates the code: on \<open>cw2\<close> after node consistency, the only candidate of the first
  slot fails in its subtree, \<open>backtrack\<close> returns no solution, and the domain of \<open>vy\<close> has
  lost the word that propagation removed. The same happens inside \<open>solve\<close> on \<open>cw5\<close>.
\<close>

theorem backtrack_does_not_restore_domains:
  "enforce_node_consistency cw2 (init cw2) = Inr state2 \<and>
   snapshot_loop state2 (variables cw2) [] = Inr (domains state2) \<and>
   backtrack cw2 state2 [] = Inr (None, state2_ac3) \<and>
   restore_loop (variables cw2) (domains state2) state2_ac3 = Inr state2_ac3 \<and>
   dom_list state2 vy = [''ab'', ''cd''] \<and> dom_list state2_ac3 vy = [''ab''] \<and>
   enforce_node_consistency cw5 (init cw5) = Inr (state5 [''wxyz''] [''ab'', ''cd'']) \<and>
   ac3 cw5 None (state5 [''wxyz''] [''ab'', ''cd'']) = Inr (False, state5 [] [''ab'', ''cd'']) \<and>
   backtrack cw5 (state5 [] [''ab'', ''cd'']) [] = Inr (None, state5 [] [''ab'']) \<and>
   solve cw5 (init cw5) = Inr (None, state5 [] [''ab'']) \<and>
   dom_list (state5 [] [''ab'', ''cd'']) v2 = [''ab'', ''cd''] \<and>
   dom_list (state5 [] [''ab'']) v2 = [''ab'']"
  by (intro conjI; code_simp)

section \<open>Variable selection\<close>

text \<open>
  Claim C3. The claim says that \<open>select_unassigned_variable\<close> returns a slot of minimal
  domain size, and among the slots of minimal domain size one of highest degree. The
  code looks the highest degree of the tied slots up in the list of the degrees of all
  unassigned slots, and takes the first slot with that degree. The theorem evaluates the
  code on \<open>cw4\<close> after node and arc consistency: the slot returned has two words left,
  while the slot \<open>vtop\<close> has one word left and the same degree.
\<close>

theorem select_unassigned_variable_not_minimal:
  "enforce_node_consistency cw4 (init cw4) = Inr state4 \<and>
   ac3 cw4 None state4 = Inr (True, state4) \<and>
   select_unassigned_variable cw4 state4 [] = Inr vdown \<and>
   length (dom_list state4 vdown) = 2 \<and> length (dom_list state4 vtop) = 1 \<and>
   length (dom_list state4 vlow) = 1 \<and>
   length (neighbors cw4 vdown) = 1 \<and> length (neighbors cw4 vtop) = 1 \<and>
   length (neighbors cw4 vlow) = 0"
  by (intro conjI; code_simp)

section \<open>The result of AC-3\<close>

text \<open>
  Claim C4. The claim says that \<open>ac3\<close> returns success exactly when the worklist drains
  with no domain left empty. The code tests a domain for emptiness only after a revision
  that removed a word from it; a domain that is empty before the call is never revised.
  The theorem evaluates the code on \<open>cw6\<close>: after node consistency both domains are
  empty, and \<open>ac3\<close> returns success. What the code does guarantee is in
  \<open>ac3_loop_failure_empty\<close> and \<open>ac3_loop_success_nonempty\<close>.
\<close>

theorem ac3_succeeds_with_empty_domain:
  "enforce_node_consistency cw6 (init cw6) = Inr state6 \<and>
   ac3 cw6 None state6 = Inr (True, state6) \<and>
   domain_of state6 va = Inr [] \<and> domain_of state6 vd = Inr []"
  by (intro conjI; code_simp)

section \<open>Characterisation of the checker\<close>

text \<open>
  Claim C8, as amended. On a well-formed puzzle the checker returns true exactly when
  every assigned word has the length of its slot, every two assigned slots with an
  overlap relation agree at their overlap indices, and the assigned words are pairwise
  distinct. When all lengths match it returns, and it returns false in every other
  case; a word of the wrong length never lets it return true. The checker takes the
  puzzle and the assignment and returns a truth value only, so it changes neither the
  assignment nor a domain.
\<close>

theorem consistent_characterization:
  "wf_crossword cw \<and> distinct (map fst a) \<longrightarrow>
     (consistent cw a = Inr True \<longleftrightarrow> is_consistent cw a) \<and>
     (lengths_match a \<longrightarrow>
        consistent cw a = Inr (overlaps_agree cw a \<and> words_distinct a)) \<and>
     (\<not> lengths_match a \<longrightarrow> consistent cw a \<noteq> Inr True)"
proof (intro impI)
  assume h: "wf_crossword cw \<and> distinct (map fst a)"
  then have wf: "wf_crossword cw" and dist: "distinct (map fst a)" by simp_all
  have total: "consistent cw a = Inr (overlaps_agree cw a \<and> words_distinct a)"
    if l: "lengths_match a"
  proof -
    from consistent_total [OF wf l] obtain b where b: "consistent cw a = Inr b" by blast
    from consistent_Inr [OF b wf dist] l b show ?thesis
      by (simp add: is_consistent_def)
  qed
  have "consistent cw a = Inr True \<longleftrightarrow> is_consistent cw a"
  proof
    assume "consistent cw a = Inr True"
    from consistent_Inr [OF this wf dist] show "is_consistent cw a" by simp
  next
    assume "is_consistent cw a"
    with total show "consistent cw a = Inr True"
      by (simp add: is_consistent_def)
  qed
  moreover have "consistent cw a \<noteq> Inr True" if "\<not> lengths_match a"
    using consistent_Inr [OF _ wf dist] that by (auto simp: is_consistent_def)
  ultimately show "(consistent cw a = Inr True \<longleftrightarrow> is_consistent cw a) \<and>
     (lengths_match a \<longrightarrow>
        consistent cw a = Inr (overlaps_agree cw a \<and> words_distinct a)) \<and>
     (\<not> lengths_match a \<longrightarrow> consistent cw a \<noteq> Inr True)"
    using total by blast
qed

theorem consistent_characterization_witness:
  "wf_crossword cw1 \<and> distinct (map fst solution1) \<and> lengths_match solution1 \<and>
   is_consistent cw1 solution1 \<and> consistent cw1 solution1 = Inr True \<and>
   distinct (map fst [(vx, ''aba''), (vy, ''cd'')]) \<and>
   lengths_match [(vx, ''aba''), (vy, ''cd'')] \<and>
   \<not> overlaps_agree cw1 [(vx, ''aba''), (vy, ''cd'')] \<and>
   consistent cw1 [(vx, ''aba''), (vy, ''cd'')] = Inr False \<and>
   distinct (map fst [(vx, ''ab'')]) \<and> \<not> lengths_match [(vx, ''ab'')] \<and>
   consistent cw1 [(vx, ''ab'')] \<noteq> Inr True"
proof -
  have 1: "wf_crossword cw1" by code_simp
  have 2: "distinct (map fst solution1)" "lengths_match solution1"
    "is_consistent cw1 solution1"
    by code_simp+
  have 3: "distinct (map fst [(vx, ''aba''), (vy, ''cd'')])"
    "lengths_match [(vx, ''aba''), (vy, ''cd'')]"
    "\<not> overlaps_agree cw1 [(vx, ''aba''), (vy, ''cd'')]"
    by code_simp+
  have 4: "distinct (map fst [(vx, ''ab'')])" "\<not> lengths_match [(vx, ''ab'')]"
    by code_simp+
  from consistent_characterization [of cw1 solution1] 1 2
  have a: "consistent cw1 solution1 = Inr True" by blast
  from consistent_characterization [of cw1 "[(vx, ''aba''), (vy, ''cd'')]"] 1 3
  have b: "consistent cw1 [(vx, ''aba''), (vy, ''cd'')] = Inr False" by simp
  from consistent_characterization [of cw1 "[(vx, ''ab'')]"] 1 4
  have c: "consistent cw1 [(vx, ''ab'')] \<noteq> Inr True" by blast
  from 1 2 a 3 b 4 c show ?thesis by (intro conjI)
qed

text \<open>The claim as stated fails on an assignment with a word of the wrong length: no two
  slots disagree and no word occurs twice, yet the checker returns false.\<close>

theorem consistent_length_counterexample:
  "overlaps_agree cw1 [(vx, ''ab'')] \<and> words_distinct [(vx, ''ab'')] \<and>
   consistent cw1 [(vx, ''ab'')] = Inr False"
  by (intro conjI; code_simp)

section \<open>Soundness of propagation and arc consistency\<close>

text \<open>
  Claim C6. If \<open>ac3\<close> reports failure, no assignment that gives every slot a word of its
  domain before the call satisfies all overlap constraints. If \<open>ac3\<close>, started from all
  arcs on a well-formed puzzle, reports success, then for every slot every word left in
  its domain has a partner that agrees with it at the overlap indices in the domain of
  every slot that overlaps it. On a node-consistent state of a well-formed puzzle the
  call returns.
\<close>

theorem ac3_sound_and_arc_consistent:
  "(wf_state cw s \<and> ac3 cw arcs s = Inr (False, s') \<longrightarrow>
      \<not> (chooses_from s A \<and> overlaps_agree cw A)) \<and>
   (wf_crossword cw \<and> wf_state cw s \<and> ac3 cw None s = Inr (True, s') \<longrightarrow>
      (\<forall>x y i j w. map_of (overlaps cw) (x, y) = Some (Some (i, j)) \<and>
          w \<in> set (dom_list s' x) \<longrightarrow> (\<exists>v \<in> set (dom_list s' y). agree w i v j))) \<and>
   (wf_crossword cw \<and> wf_state cw s \<and> node_consistent cw s \<longrightarrow>
      (\<exists>b s'. ac3 cw None s = Inr (b, s')))"
proof (intro conjI impI)
  assume h: "wf_state cw s \<and> ac3 cw arcs s = Inr (False, s')"
  then have dist: "distinct (map snd (domains s))" by (simp add: wf_state_def)
  from h obtain l where run: "ac3_loop cw l s = Inr (False, s')"
    by (cases arcs) (auto simp: ac3_def)
  show "\<not> (chooses_from s A \<and> overlaps_agree cw A)"
  proof
    assume "chooses_from s A \<and> overlaps_agree cw A"
    with ac3_loop_sound [OF dist _ _ run, of A] show False by simp
  qed
next
  assume h: "wf_crossword cw \<and> wf_state cw s \<and> ac3 cw None s = Inr (True, s')"
  then have wf: "wf_crossword cw" and dist: "distinct (map snd (domains s))"
    and run: "ac3_loop cw (all_arcs cw) s = Inr (True, s')"
    by (simp_all add: wf_state_def ac3_def)
  from ac3_loop_arc_consistent [OF wf dist pending_inv_all_arcs run]
  have "arc_consistent cw s'" .
  then show "\<forall>x y i j w. map_of (overlaps cw) (x, y) = Some (Some (i, j)) \<and>
          w \<in> set (dom_list s' x) \<longrightarrow> (\<exists>v \<in> set (dom_list s' y). agree w i v j)"
    using arc_consistent_overlap by blast
next
  assume "wf_crossword cw \<and> wf_state cw s \<and> node_consistent cw s"
  with ac3_loop_total [of cw s "all_arcs cw"]
  show "\<exists>b s'. ac3 cw None s = Inr (b, s')"
    by (simp add: ac3_def)
qed

theorem ac3_sound_and_arc_consistent_witness:
  "wf_state cw7 (state7 [''xyz''] [''ab'']) \<and>
   ac3 cw7 None (state7 [''xyz''] [''ab'']) = Inr (False, state7 [] [''ab'']) \<and>
   chooses_from (state7 [''xyz''] [''ab'']) [(vx, ''xyz''), (vy, ''ab''), (vz, ''ab'')] \<and>
   \<not> overlaps_agree cw7 [(vx, ''xyz''), (vy, ''ab''), (vz, ''ab'')] \<and>
   wf_crossword cw2 \<and> wf_state cw2 state2 \<and> node_consistent cw2 state2 \<and>
   ac3 cw2 None state2 = Inr (True, state2_ac3) \<and>
   map_of (overlaps cw2) (vy, vx) = Some (Some (0, 0)) \<and>
   ''ab'' \<in> set (dom_list state2_ac3 vy) \<and>
   (\<exists>v \<in> set (dom_list state2_ac3 vx). agree ''ab'' 0 v 0)"
proof -
  let ?A = "[(vx, ''xyz''), (vy, ''ab''), (vz, ''ab'')]"
  have 1: "wf_state cw7 (state7 [''xyz''] [''ab''])" by code_simp
  have 2: "ac3 cw7 None (state7 [''xyz''] [''ab'']) = Inr (False, state7 [] [''ab''])"
    by code_simp
  have 3: "chooses_from (state7 [''xyz''] [''ab'']) ?A" by code_simp
  have 4: "wf_crossword cw2" "wf_state cw2 state2" "node_consistent cw2 state2" by code_simp+
  have 5: "ac3 cw2 None state2 = Inr (True, state2_ac3)" by code_simp
  have 6: "map_of (overlaps cw2) (vy, vx) = Some (Some (0, 0))" by code_simp
  have 7: "''ab'' \<in> set (dom_list state2_ac3 vy)" by code_simp
  from ac3_sound_and_arc_consistent
    [of cw7 "state7 [''xyz''] [''ab'']" "Some (all_arcs cw7)" "state7 [] [''ab'']" ?A]
    1 2 3
  have a: "\<not> overlaps_agree cw7 ?A" by (simp add: ac3_def)
  from ac3_sound_and_arc_consistent [of cw2 state2 _ state2_ac3] 4 5
  have "\<forall>x y i j w. map_of (overlaps cw2) (x, y) = Some (Some (i, j)) \<and>
          w \<in> set (dom_list state2_ac3 x) \<longrightarrow> (\<exists>v \<in> set (dom_list state2_ac3 y). agree w i v j)"
    by blast
  with 6 7 have b: "\<exists>v \<in> set (dom_list state2_ac3 vx). agree ''ab'' 0 v 0" by blast
  from 1 2 3 a 4 5 6 7 b show ?thesis by (intro conjI)
qed

section \<open>Running propagation twice\<close>

text \<open>
  Claim C7, as amended. On a well-formed puzzle, when \<open>ac3\<close> with the default full arc
  list reports success, a second run with no intervening assignment reports success
  again and leaves every domain as the first run left it.
\<close>

theorem ac3_idempotent_on_success:
  "wf_crossword cw \<and> wf_state cw s \<and> ac3 cw None s = Inr (True, s') \<longrightarrow>
     ac3 cw None s' = Inr (True, s')"
proof
  assume h: "wf_crossword cw \<and> wf_state cw s \<and> ac3 cw None s = Inr (True, s')"
  then have wf: "wf_crossword cw" and st: "wf_state cw s"
    and run: "ac3_loop cw (all_arcs cw) s = Inr (True, s')"
    by (simp_all add: ac3_def)
  from st have dist: "distinct (map snd (domains s))" by (simp add: wf_state_def)
  from ac3_loop_arc_consistent [OF wf dist pending_inv_all_arcs run]
  have ac: "arc_consistent cw s'" .
  from shrinks_wf_state [OF ac3_loop_shrinks [OF run] st] have st': "wf_state cw s'" .
  from ac3_loop_fixpoint [OF wf st' ac subset_refl]
  show "ac3 cw None s' = Inr (True, s')"
    by (simp add: ac3_def)
qed

theorem ac3_idempotent_on_success_witness:
  "wf_crossword cw2 \<and> wf_state cw2 state2 \<and>
   ac3 cw2 None state2 = Inr (True, state2_ac3) \<and>
   ac3 cw2 None state2_ac3 = Inr (True, state2_ac3)"
proof -
  have 1: "wf_crossword cw2" "wf_state cw2 state2" by code_simp+
  have 2: "ac3 cw2 None state2 = Inr (True, state2_ac3)" by code_simp
  from ac3_idempotent_on_success [of cw2 state2 state2_ac3] 1 2
  have "ac3 cw2 None state2_ac3 = Inr (True, state2_ac3)" by blast
  with 1 2 show ?thesis by (intro conjI)
qed

text \<open>The claim as stated fails after a run that reports failure: the first run stops
  at the first emptied domain, and the second run goes on to empty the domain of \<open>vy\<close>.\<close>

theorem ac3_not_idempotent_counterexample:
  "enforce_node_consistency cw7 (init cw7) = Inr (state7 [''xyz''] [''ab'']) \<and>
   ac3 cw7 None (state7 [''xyz''] [''ab'']) = Inr (False, state7 [] [''ab'']) \<and>
   ac3 cw7 None (state7 [] [''ab'']) = Inr (False, state7 [] []) \<and>
   dom_list (state7 [] [''ab'']) vy = [''ab''] \<and> dom_list (state7 [] []) vy = []"
  by (intro conjI; code_simp)

end
